theory Spec2Isabelle
  imports Main "HOL-Library.Word" "HOL-Library.Sublist"
begin

section \<open>JavaScript values\<close>

text \<open>
  A JavaScript string is a sequence of UTF-16 code units. \<open>lit\<close> writes an ASCII
  literal of the source as such a sequence.
\<close>

type_synonym js_string = "16 word list"

definition lit :: "string \<Rightarrow> js_string" where
  "lit s = map (\<lambda>c. of_nat (of_char c)) s"

text \<open>
  A \<open>Set\<close> keeps its elements in insertion order and holds no element twice:
  \<open>add\<close> appends an element that is absent and does nothing otherwise, \<open>delete\<close>
  takes the element out, \<open>for ... of\<close> visits the elements in insertion order.
\<close>

definition set_add :: "'a \<Rightarrow> 'a list \<Rightarrow> 'a list" where
  "set_add x xs = (if x \<in> set xs then xs else xs @ [x])"

definition set_delete :: "'a \<Rightarrow> 'a list \<Rightarrow> 'a list" where
  "set_delete x xs = removeAll x xs"

definition set_size :: "'a list \<Rightarrow> nat" where
  "set_size xs = length xs"

text \<open>
  \<open>trim\<close> takes the white space and the line terminators of ECMAScript off both
  ends: TAB, LF, VT, FF, CR, the byte order mark and the space separators of Unicode.
\<close>

definition is_white_space :: "16 word \<Rightarrow> bool" where
  "is_white_space c \<longleftrightarrow>
     c = 0x09 \<or> c = 0x0A \<or> c = 0x0B \<or> c = 0x0C \<or> c = 0x0D \<or> c = 0x20 \<or> c = 0xA0 \<or>
     c = 0x1680 \<or> (0x2000 \<le> c \<and> c \<le> 0x200A) \<or> c = 0x2028 \<or> c = 0x2029 \<or>
     c = 0x202F \<or> c = 0x205F \<or> c = 0x3000 \<or> c = 0xFEFF"

definition trim :: "js_string \<Rightarrow> js_string" where
  "trim s = rev (dropWhile is_white_space (rev (dropWhile is_white_space s)))"

text \<open>\<open>s.includes(pat)\<close>: \<open>pat\<close> occurs in \<open>s\<close>.\<close>

fun js_includes :: "js_string \<Rightarrow> js_string \<Rightarrow> bool" where
  "js_includes [] pat = (pat = [])"
| "js_includes (c # cs) pat = (prefix pat (c # cs) \<or> js_includes cs pat)"

text \<open>
  \<open>s.replace(pat, rep)\<close> with a string pattern: the first occurrence of \<open>pat\<close>
  is replaced, the rest of \<open>s\<close> is kept. (The source's replacement is the empty
  string; the \<open>$\<close> patterns of a replacement are not modelled.)
\<close>

fun replace :: "js_string \<Rightarrow> js_string \<Rightarrow> js_string \<Rightarrow> js_string" where
  "replace [] pat rep = (if pat = [] then rep else [])"
| "replace (c # cs) pat rep =
     (if prefix pat (c # cs) then rep @ drop (length pat) (c # cs)
      else c # replace cs pat rep)"

section \<open>The chat relay: sockets/server.js\<close>

text \<open>
  A socket is a reference to a WebSocket object of the \<open>ws\<close> library; two sockets
  are the same connection iff the references are equal (\<open>client !== socket\<close>).
  The object's \<open>readyState\<close> field is written by the library only.
\<close>

type_synonym socket = nat

datatype ready_state = CONNECTING | OPEN | CLOSING | CLOSED

type_synonym buffer = "8 word list"

text \<open>The only call of the relay that can throw is \<open>client.send(msg)\<close>.\<close>

datatype error = SendError socket

datatype log_entry =
    Listening
  | ClientConnected nat
  | Received js_string
  | ClientDisconnected nat

text \<open>
  One call \<open>client.send(msg)\<close> that returned: \<open>recipient\<close> is \<open>client\<close>,
  \<open>origin\<close> is the \<open>socket\<close> of the message listener that made the call.
\<close>

record delivery =
  recipient :: socket
  origin :: socket
  payload :: js_string

text \<open>
  The state of the server process: the module-level \<open>clients\<close> set, the
  \<open>readyState\<close> of every socket object, the calls of \<open>send\<close> that returned
  (oldest first) and the lines written by \<open>console.log\<close>.
\<close>

record server =
  clients :: "socket list"
  readyState :: "socket \<Rightarrow> ready_state"
  sent :: "delivery list"
  console :: "log_entry list"

definition init :: server where
  "init = \<lparr>clients = [], readyState = (\<lambda>_. CONNECTING), sent = [],
            console = [Listening]\<rparr>"

text \<open>
  \<open>send\<close> and \<open>data.toString()\<close> belong to the \<open>ws\<close> library and to Node, not to
  this repository; they are parameters of the model. \<open>send client msg\<close> is
  \<open>None\<close> when the call returns and \<open>Some e\<close> when it throws \<open>e\<close>.

  The loop of lines 18 to 22. There is no \<open>try\<close> around \<open>client.send(msg)\<close>: an
  exception thrown by it ends the loop.
\<close>

fun broadcast ::
  "(socket \<Rightarrow> js_string \<Rightarrow> error option) \<Rightarrow> (socket \<Rightarrow> ready_state) \<Rightarrow>
   socket \<Rightarrow> js_string \<Rightarrow> socket list \<Rightarrow> delivery list \<times> error option" where
  "broadcast send rs socket msg [] = ([], None)"
| "broadcast send rs socket msg (client # rest) =
     (if client \<noteq> socket \<and> rs client = OPEN then
        (case send client msg of
           Some e \<Rightarrow> ([], Some e)
         | None \<Rightarrow>
             (case broadcast send rs socket msg rest of
                (ds, r) \<Rightarrow>
                  (\<lparr>recipient = client, origin = socket, payload = msg\<rparr> # ds, r)))
      else broadcast send rs socket msg rest)"

text \<open>
  The listeners. A listener that ends by an exception gives \<open>Inl\<close>, with the
  exception and the state it leaves behind.
\<close>

definition onConnection :: "socket \<Rightarrow> server \<Rightarrow> server" where
  "onConnection socket s =
     (let cs = set_add socket (clients s)
      in s\<lparr>clients := cs, console := console s @ [ClientConnected (set_size cs)]\<rparr>)"

definition onMessage ::
  "(socket \<Rightarrow> js_string \<Rightarrow> error option) \<Rightarrow> (buffer \<Rightarrow> js_string) \<Rightarrow>
   socket \<Rightarrow> buffer \<Rightarrow> server \<Rightarrow> error \<times> server + server" where
  "onMessage send toString socket data s =
     (let msg = toString data;
          s1 = s\<lparr>console := console s @ [Received msg]\<rparr>
      in case broadcast send (readyState s1) socket msg (clients s1) of
           (ds, None) \<Rightarrow> Inr (s1\<lparr>sent := sent s1 @ ds\<rparr>)
         | (ds, Some e) \<Rightarrow> Inl (e, s1\<lparr>sent := sent s1 @ ds\<rparr>))"

definition onClose :: "socket \<Rightarrow> server \<Rightarrow> server" where
  "onClose socket s =
     (let cs = set_delete socket (clients s)
      in s\<lparr>clients := cs, console := console s @ [ClientDisconnected (set_size cs)]\<rparr>)"

text \<open>
  What happens to the process, one step at a time: a call of the
  \<open>'connection'\<close> listener, of the \<open>'message'\<close> or the \<open>'close'\<close> listener that
  line 13 or 25 bound to a socket, or the library writing a socket's
  \<open>readyState\<close>. Node runs each listener to its end before the next one starts.
  Nothing catches an exception that leaves a listener, so the run ends there.
\<close>

datatype event =
    Connection socket
  | Message socket buffer
  | Close socket
  | ReadyState socket ready_state

fun dispatch ::
  "(socket \<Rightarrow> js_string \<Rightarrow> error option) \<Rightarrow> (buffer \<Rightarrow> js_string) \<Rightarrow>
   event \<Rightarrow> server \<Rightarrow> error \<times> server + server" where
  "dispatch send toString (Connection socket) s = Inr (onConnection socket s)"
| "dispatch send toString (Message socket data) s = onMessage send toString socket data s"
| "dispatch send toString (Close socket) s = Inr (onClose socket s)"
| "dispatch send toString (ReadyState socket st) s =
     Inr (s\<lparr>readyState := (readyState s)(socket := st)\<rparr>)"

fun run ::
  "(socket \<Rightarrow> js_string \<Rightarrow> error option) \<Rightarrow> (buffer \<Rightarrow> js_string) \<Rightarrow>
   event list \<Rightarrow> server \<Rightarrow> error \<times> server + server" where
  "run send toString [] s = Inr s"
| "run send toString (e # es) s =
     (case dispatch send toString e s of
        Inl x \<Rightarrow> Inl x
      | Inr s' \<Rightarrow> run send toString es s')"

definition state_of :: "error \<times> server + server \<Rightarrow> server" where
  "state_of r = (case r of Inl (e, s) \<Rightarrow> s | Inr s \<Rightarrow> s)"

fun is_message :: "event \<Rightarrow> bool" where
  "is_message (Message socket data) = True"
| "is_message _ = False"

text \<open>
  What one listener call handed to \<open>send\<close>: the part of \<open>sent\<close> added between
  the state before and the state after; and the payloads among a list of
  deliveries that went to one socket.
\<close>

definition delivered :: "server \<Rightarrow> server \<Rightarrow> delivery list" where
  "delivered s s' = drop (length (sent s)) (sent s')"

definition copies_for :: "socket \<Rightarrow> delivery list \<Rightarrow> js_string list" where
  "copies_for c ds = map payload (filter (\<lambda>d. recipient d = c) ds)"

text \<open>
  The registry as the specification words it: the connections for which a connect
  event has fired and no close event has fired since.
\<close>

definition connected_not_closed :: "event list \<Rightarrow> socket set" where
  "connected_not_closed evs =
     {c. \<exists>pre post. evs = pre @ Connection c # post \<and> Close c \<notin> set post}"

text \<open>
  The open members other than the sender, in the order of the set: the sockets
  the loop calls \<open>send\<close> on when no call throws.
\<close>

definition targets :: "(socket \<Rightarrow> ready_state) \<Rightarrow> socket \<Rightarrow> socket list \<Rightarrow> socket list" where
  "targets rs socket cs = filter (\<lambda>client. client \<noteq> socket \<and> rs client = OPEN) cs"

text \<open>
  The payloads that the message listener of \<open>a\<close> has handed to \<open>r\<close>, oldest
  first; and the texts of the messages the relay has received from \<open>a\<close>, in the
  order of the events.
\<close>

definition relayed_to :: "socket \<Rightarrow> socket \<Rightarrow> server \<Rightarrow> js_string list" where
  "relayed_to r a s = map payload (filter (\<lambda>d. recipient d = r \<and> origin d = a) (sent s))"

fun messages_from :: "socket \<Rightarrow> (buffer \<Rightarrow> js_string) \<Rightarrow> event list \<Rightarrow> js_string list" where
  "messages_from a toString [] = []"
| "messages_from a toString (Message socket data # evs) =
     (if socket = a then toString data # messages_from a toString evs
      else messages_from a toString evs)"
| "messages_from a toString (_ # evs) = messages_from a toString evs"

text \<open>
  Values used in the examples below: a \<open>send\<close> that always returns and one that
  throws on one socket, \<open>toString\<close> on ASCII bytes, three open sockets, a message.
\<close>

definition never_fails :: "socket \<Rightarrow> js_string \<Rightarrow> error option" where
  "never_fails c m = None"

definition fails_at :: "socket \<Rightarrow> socket \<Rightarrow> js_string \<Rightarrow> error option" where
  "fails_at b c m = (if c = b then Some (SendError b) else None)"

definition ascii_text :: "buffer \<Rightarrow> js_string" where
  "ascii_text bytes = map ucast bytes"

definition three_open :: server where
  "three_open = \<lparr>clients = [1, 2, 3], readyState = (\<lambda>_. OPEN), sent = [],
                  console = [Listening, ClientConnected 1, ClientConnected 2,
                             ClientConnected 3]\<rparr>"

definition hello :: buffer where
  "hello = [0x68, 0x65, 0x6C, 0x6C, 0x6F]"

definition two_closing :: server where
  "two_closing = three_open\<lparr>readyState := (readyState three_open)(2 := CLOSING)\<rparr>"

section \<open>The chat client: sockets/user2.js\<close>

text \<open>
  The callback given to \<open>createInput\<close>, called with each line of the terminal. The
  result is the frame it hands to \<open>ws.send\<close>, if any.
\<close>

definition onLine :: "js_string \<Rightarrow> js_string option" where
  "onLine line =
     (if length (trim line) = 0 then None
      else Some (lit ''user2: '' @ line))"

section \<open>JSON\<close>

text \<open>
  The values of JSON. A number keeps its literal; an object keeps its members in
  the order of insertion.
\<close>

datatype json =
    JNull
  | JBool bool
  | JNumber js_string
  | JString js_string
  | JArray "json list"
  | JObject "(js_string \<times> json) list"

text \<open>
  \<open>JSON.stringify\<close> on these values, without indentation. In a string, the
  quote, the backslash and the control characters are escaped, and so is a surrogate
  that does not belong to a pair.
\<close>

definition hex_digit :: "nat \<Rightarrow> 16 word" where
  "hex_digit n = (if n mod 16 < 10 then of_nat (48 + n mod 16) else of_nat (87 + n mod 16))"

definition is_surrogate :: "16 word \<Rightarrow> bool" where
  "is_surrogate c \<longleftrightarrow> 0xD800 \<le> c \<and> c \<le> 0xDFFF"

definition escape_unit :: "16 word \<Rightarrow> js_string" where
  "escape_unit c =
     (if c = 0x08 then [0x5C, 0x62]
      else if c = 0x09 then [0x5C, 0x74]
      else if c = 0x0A then [0x5C, 0x6E]
      else if c = 0x0C then [0x5C, 0x66]
      else if c = 0x0D then [0x5C, 0x72]
      else if c = 0x22 then [0x5C, 0x22]
      else if c = 0x5C then [0x5C, 0x5C]
      else if c < 0x20 \<or> is_surrogate c then
        [0x5C, 0x75] @ map (\<lambda>i. hex_digit (unat c div 16 ^ i)) [3, 2, 1, 0]
      else [c])"

fun quote_units :: "js_string \<Rightarrow> js_string" where
  "quote_units [] = []"
| "quote_units [c] = escape_unit c"
| "quote_units (c # d # cs) =
     (if 0xD800 \<le> c \<and> c \<le> 0xDBFF \<and> 0xDC00 \<le> d \<and> d \<le> 0xDFFF
      then c # d # quote_units cs
      else escape_unit c @ quote_units (d # cs))"

definition quote :: "js_string \<Rightarrow> js_string" where
  "quote s = [0x22] @ quote_units s @ [0x22]"

fun join :: "js_string \<Rightarrow> js_string list \<Rightarrow> js_string" where
  "join sep [] = []"
| "join sep [x] = x"
| "join sep (x # y # ys) = x @ sep @ join sep (y # ys)"

fun JSON_stringify :: "json \<Rightarrow> js_string" where
  "JSON_stringify JNull = lit ''null''"
| "JSON_stringify (JBool b) = (if b then lit ''true'' else lit ''false'')"
| "JSON_stringify (JNumber n) = n"
| "JSON_stringify (JString s) = quote s"
| "JSON_stringify (JArray vs) = lit ''['' @ join (lit '','') (map JSON_stringify vs) @ lit '']''"
| "JSON_stringify (JObject ms) =
     lit ''{'' @ join (lit '','') (map (\<lambda>(k, v). quote k @ lit '':'' @ JSON_stringify v) ms)
       @ lit ''}''"

text \<open>
  \<open>JSON.parse\<close>, by recursive descent. \<open>parse_value n\<close> reads one value with
  budget \<open>n\<close> for the nested calls: \<open>None\<close> when the budget is used up,
  \<open>Some (Inl SyntaxError)\<close> when the text is not JSON, \<open>Some (Inr (v, rest))\<close>
  otherwise, with the text behind the value.
\<close>

datatype syntax_error = SyntaxError

definition is_json_ws :: "16 word \<Rightarrow> bool" where
  "is_json_ws c \<longleftrightarrow> c = 0x20 \<or> c = 0x09 \<or> c = 0x0A \<or> c = 0x0D"

definition skip_ws :: "js_string \<Rightarrow> js_string" where
  "skip_ws cs = dropWhile is_json_ws cs"

definition is_digit :: "16 word \<Rightarrow> bool" where
  "is_digit c \<longleftrightarrow> 0x30 \<le> c \<and> c \<le> 0x39"

definition hex_value :: "16 word \<Rightarrow> 16 word option" where
  "hex_value c =
     (if 0x30 \<le> c \<and> c \<le> 0x39 then Some (c - 0x30)
      else if 0x41 \<le> c \<and> c \<le> 0x46 then Some (c - 0x37)
      else if 0x61 \<le> c \<and> c \<le> 0x66 then Some (c - 0x57)
      else None)"

definition hex4 :: "16 word \<Rightarrow> 16 word \<Rightarrow> 16 word \<Rightarrow> 16 word \<Rightarrow> 16 word option" where
  "hex4 h1 h2 h3 h4 =
     (case (hex_value h1, hex_value h2, hex_value h3, hex_value h4) of
        (Some a, Some b, Some c, Some d) \<Rightarrow> Some (((a * 16 + b) * 16 + c) * 16 + d)
      | _ \<Rightarrow> None)"

definition unescape :: "16 word \<Rightarrow> 16 word option" where
  "unescape e =
     (if e = 0x22 \<or> e = 0x5C \<or> e = 0x2F then Some e
      else if e = 0x62 then Some 0x08
      else if e = 0x66 then Some 0x0C
      else if e = 0x6E then Some 0x0A
      else if e = 0x72 then Some 0x0D
      else if e = 0x74 then Some 0x09
      else None)"

text \<open>The characters of a string literal, after its opening quote.\<close>

fun parse_chars :: "js_string \<Rightarrow> js_string \<Rightarrow> (js_string \<times> js_string) option" where
  "parse_chars acc [] = None"
| "parse_chars acc [c] = (if c = 0x22 then Some (rev acc, []) else None)"
| "parse_chars acc (c # e # cs) =
     (if c = 0x22 then Some (rev acc, e # cs)
      else if c = 0x5C then
        (if e = 0x75 then
           (case cs of
              h1 # h2 # h3 # h4 # cs' \<Rightarrow>
                (case hex4 h1 h2 h3 h4 of
                   Some u \<Rightarrow> parse_chars (u # acc) cs'
                 | None \<Rightarrow> None)
            | _ \<Rightarrow> None)
         else (case unescape e of
                 Some u \<Rightarrow> parse_chars (u # acc) cs
               | None \<Rightarrow> None))
      else if c < 0x20 then None
      else parse_chars (c # acc) (e # cs))"

text \<open>
  A number literal: \<open>-? (0 | [1-9][0-9]*) (. [0-9]+)? ([eE] [+-]? [0-9]+)?\<close>. The
  value keeps the literal.
\<close>

definition parse_digits :: "js_string \<Rightarrow> (js_string \<times> js_string) option" where
  "parse_digits cs =
     (case takeWhile is_digit cs of
        [] \<Rightarrow> None
      | ds \<Rightarrow> Some (ds, dropWhile is_digit cs))"

definition parse_int :: "js_string \<Rightarrow> (js_string \<times> js_string) option" where
  "parse_int cs =
     (case cs of
        [] \<Rightarrow> None
      | c # rest \<Rightarrow>
          if c = 0x30 then Some ([c], rest)
          else parse_digits cs)"

definition parse_frac :: "js_string \<Rightarrow> (js_string \<times> js_string) option" where
  "parse_frac cs =
     (case cs of
        [] \<Rightarrow> Some ([], cs)
      | c # rest \<Rightarrow>
          if c = 0x2E then
            (case parse_digits rest of
               None \<Rightarrow> None
             | Some (ds, r) \<Rightarrow> Some (c # ds, r))
          else Some ([], cs))"

definition parse_exp :: "js_string \<Rightarrow> (js_string \<times> js_string) option" where
  "parse_exp cs =
     (case cs of
        [] \<Rightarrow> Some ([], cs)
      | c # rest \<Rightarrow>
          if c = 0x65 \<or> c = 0x45 then
            (case rest of
               [] \<Rightarrow> None
             | s # rest' \<Rightarrow>
                 if s = 0x2B \<or> s = 0x2D then
                   (case parse_digits rest' of
                      None \<Rightarrow> None
                    | Some (ds, r) \<Rightarrow> Some (c # s # ds, r))
                 else
                   (case parse_digits rest of
                      None \<Rightarrow> None
                    | Some (ds, r) \<Rightarrow> Some (c # ds, r)))
          else Some ([], cs))"

definition parse_number :: "js_string \<Rightarrow> (js_string \<times> js_string) option" where
  "parse_number cs =
     (let (sign, cs1) = (case cs of c # rest \<Rightarrow> if c = 0x2D then ([c], rest) else ([], cs)
                         | [] \<Rightarrow> ([], cs))
      in case parse_int cs1 of
           None \<Rightarrow> None
         | Some (i, cs2) \<Rightarrow>
             (case parse_frac cs2 of
                None \<Rightarrow> None
              | Some (f, cs3) \<Rightarrow>
                  (case parse_exp cs3 of
                     None \<Rightarrow> None
                   | Some (e, cs4) \<Rightarrow> Some (sign @ i @ f @ e, cs4))))"

fun parse_value :: "nat \<Rightarrow> js_string \<Rightarrow> (syntax_error + json \<times> js_string) option"
  and parse_elements ::
    "nat \<Rightarrow> json list \<Rightarrow> js_string \<Rightarrow> (syntax_error + json \<times> js_string) option"
  and parse_members ::
    "nat \<Rightarrow> (js_string \<times> json) list \<Rightarrow> js_string \<Rightarrow>
     (syntax_error + json \<times> js_string) option" where
  "parse_value 0 cs = None"
| "parse_value (Suc n) cs =
     (case skip_ws cs of
        [] \<Rightarrow> Some (Inl SyntaxError)
      | c # rest \<Rightarrow>
          if c = 0x7B then
            (case skip_ws rest of
               [] \<Rightarrow> Some (Inl SyntaxError)
             | c' # rest' \<Rightarrow>
                 if c' = 0x7D then Some (Inr (JObject [], rest'))
                 else parse_members n [] rest)
          else if c = 0x5B then
            (case skip_ws rest of
               [] \<Rightarrow> Some (Inl SyntaxError)
             | c' # rest' \<Rightarrow>
                 if c' = 0x5D then Some (Inr (JArray [], rest'))
                 else parse_elements n [] rest)
          else if c = 0x22 then
            (case parse_chars [] rest of
               None \<Rightarrow> Some (Inl SyntaxError)
             | Some (s, r) \<Rightarrow> Some (Inr (JString s, r)))
          else if prefix (lit ''true'') (c # rest) then Some (Inr (JBool True, drop 3 rest))
          else if prefix (lit ''false'') (c # rest) then Some (Inr (JBool False, drop 4 rest))
          else if prefix (lit ''null'') (c # rest) then Some (Inr (JNull, drop 3 rest))
          else
            (case parse_number (c # rest) of
               None \<Rightarrow> Some (Inl SyntaxError)
             | Some (n, r) \<Rightarrow> Some (Inr (JNumber n, r))))"
| "parse_elements 0 acc cs = None"
| "parse_elements (Suc n) acc cs =
     (case parse_value n cs of
        None \<Rightarrow> None
      | Some (Inl e) \<Rightarrow> Some (Inl e)
      | Some (Inr (v, r)) \<Rightarrow>
          (case skip_ws r of
             [] \<Rightarrow> Some (Inl SyntaxError)
           | c # r' \<Rightarrow>
               if c = 0x2C then parse_elements n (v # acc) r'
               else if c = 0x5D then Some (Inr (JArray (rev (v # acc)), r'))
               else Some (Inl SyntaxError)))"
| "parse_members 0 acc cs = None"
| "parse_members (Suc n) acc cs =
     (case skip_ws cs of
        [] \<Rightarrow> Some (Inl SyntaxError)
      | q # cs1 \<Rightarrow>
          if q \<noteq> 0x22 then Some (Inl SyntaxError)
          else
            (case parse_chars [] cs1 of
               None \<Rightarrow> Some (Inl SyntaxError)
             | Some (k, cs2) \<Rightarrow>
                 (case skip_ws cs2 of
                    [] \<Rightarrow> Some (Inl SyntaxError)
                  | colon # cs3 \<Rightarrow>
                      if colon \<noteq> 0x3A then Some (Inl SyntaxError)
                      else
                        (case parse_value n cs3 of
                           None \<Rightarrow> None
                         | Some (Inl e) \<Rightarrow> Some (Inl e)
                         | Some (Inr (v, r)) \<Rightarrow>
                             (case skip_ws r of
                                [] \<Rightarrow> Some (Inl SyntaxError)
                              | c # r' \<Rightarrow>
                                  if c = 0x2C then parse_members n ((k, v) # acc) r'
                                  else if c = 0x7D
                                  then Some (Inr (JObject (rev ((k, v) # acc)), r'))
                                  else Some (Inl SyntaxError))))))"

text \<open>
  \<open>JSON.parse(text)\<close>: one value, then nothing but white space. The budget is
  never used up (\<open>JSON_parse_total\<close> below): a nested value costs two and starts
  at least one character later.
\<close>

definition JSON_parse :: "js_string \<Rightarrow> (syntax_error + json) option" where
  "JSON_parse text =
     (case parse_value (Suc (2 * length text)) text of
        None \<Rightarrow> None
      | Some (Inl e) \<Rightarrow> Some (Inl e)
      | Some (Inr (v, rest)) \<Rightarrow>
          if skip_ws rest = [] then Some (Inr v) else Some (Inl SyntaxError))"

section \<open>The event source: SSE/server/server.js\<close>

text \<open>
  The value of \<open>new Date()\<close>, by its UTC fields; \<open>valid_date\<close> gives their
  ranges. \<open>toISOString\<close> writes \<open>YYYY-MM-DDTHH:mm:ss.sssZ\<close>, with a sign and six
  digits for a year outside 0 to 9999.
\<close>

record date =
  year :: int
  month :: nat
  day :: nat
  hours :: nat
  minutes :: nat
  seconds :: nat
  milliseconds :: nat

definition days_in_month :: "int \<Rightarrow> nat \<Rightarrow> nat" where
  "days_in_month y m =
     (if m = 2 then (if y mod 4 = 0 \<and> (y mod 100 \<noteq> 0 \<or> y mod 400 = 0) then 29 else 28)
      else if m = 4 \<or> m = 6 \<or> m = 9 \<or> m = 11 then 30
      else 31)"

definition valid_date :: "date \<Rightarrow> bool" where
  "valid_date d \<longleftrightarrow>
     - 271821 \<le> year d \<and> year d \<le> 275760 \<and>
     1 \<le> month d \<and> month d \<le> 12 \<and>
     1 \<le> day d \<and> day d \<le> days_in_month (year d) (month d) \<and>
     hours d < 24 \<and> minutes d < 60 \<and> seconds d < 60 \<and> milliseconds d < 1000"

definition digit :: "nat \<Rightarrow> 16 word" where
  "digit n = of_nat (48 + n mod 10)"

fun pad :: "nat \<Rightarrow> nat \<Rightarrow> js_string" where
  "pad 0 n = []"
| "pad (Suc w) n = pad w (n div 10) @ [digit n]"

definition toISOString :: "date \<Rightarrow> js_string" where
  "toISOString d =
     (if 0 \<le> year d \<and> year d \<le> 9999 then pad 4 (nat (year d))
      else (if year d < 0 then lit ''-'' else lit ''+'') @ pad 6 (nat \<bar>year d\<bar>))
     @ lit ''-'' @ pad 2 (month d) @ lit ''-'' @ pad 2 (day d)
     @ lit ''T'' @ pad 2 (hours d) @ lit '':'' @ pad 2 (minutes d) @ lit '':''
     @ pad 2 (seconds d) @ lit ''.'' @ pad 3 (milliseconds d) @ lit ''Z''"

text \<open>The object literal of line 14 and the text handed to \<open>res.write\<close>.\<close>

definition payload_object :: "date \<Rightarrow> json" where
  "payload_object now =
     JObject [(lit ''msg'', JString (lit ''Hello from fetch SSE'')),
              (lit ''time'', JString (toISOString now))]"

definition emission :: "date \<Rightarrow> js_string" where
  "emission now = lit ''data: '' @ JSON_stringify (payload_object now) @ [0x0A, 0x0A]"

text \<open>
  A response object is a reference. The state of the server process: the headers
  set on each response, the timers made by \<open>setInterval\<close> (the response each
  callback holds and the period in milliseconds; the source never calls
  \<open>clearInterval\<close>), the calls of \<open>res.write\<close> (oldest first) and the console.
\<close>

type_synonym res = nat

datatype sse_log = HelloFromFetchSSE | ServerRunning | SendingMessage

record sse_server =
  headers :: "res \<Rightarrow> (string \<times> string) list"
  intervals :: "(res \<times> nat) list"
  written :: "(res \<times> js_string) list"
  sse_console :: "sse_log list"

definition sse_init :: sse_server where
  "sse_init = \<lparr>headers = (\<lambda>_. []), intervals = [], written = [],
                sse_console = [HelloFromFetchSSE, ServerRunning]\<rparr>"

definition setHeader :: "string \<Rightarrow> string \<Rightarrow> (string \<times> string) list \<Rightarrow> (string \<times> string) list" where
  "setHeader name v hs = filter (\<lambda>(k, _). k \<noteq> name) hs @ [(name, v)]"

text \<open>The handler of \<open>GET /events\<close> (lines 7 to 16).\<close>

definition getEvents :: "res \<Rightarrow> sse_server \<Rightarrow> sse_server" where
  "getEvents r s =
     s\<lparr>headers := (headers s)(r :=
          setHeader ''Connection'' ''keep-alive''
            (setHeader ''Cache-Control'' ''no-cache''
              (setHeader ''Content-Type'' ''text/event-stream'' (headers s r)))),
       intervals := intervals s @ [(r, 5000)]\<rparr>"

text \<open>The callback of the timer (lines 12 to 15), run at time \<open>now\<close> for response \<open>r\<close>.\<close>

definition onInterval :: "res \<Rightarrow> date \<Rightarrow> sse_server \<Rightarrow> sse_server" where
  "onInterval r now s =
     s\<lparr>sse_console := sse_console s @ [SendingMessage],
       written := written s @ [(r, emission now)]\<rparr>"

text \<open>
  What happens to the process: a request for \<open>/events\<close> with a new response
  object, the \<open>i\<close>-th timer firing at some time, and the client of a response going
  away, for which the source registers no listener.
\<close>

datatype sse_event = GetEvents res | Tick nat date | ClientGone res

fun sse_step :: "sse_event \<Rightarrow> sse_server \<Rightarrow> sse_server" where
  "sse_step (GetEvents r) s = getEvents r s"
| "sse_step (Tick i now) s =
     (if i < length (intervals s) then onInterval (fst (intervals s ! i)) now s else s)"
| "sse_step (ClientGone r) s = s"

fun sse_run :: "sse_event list \<Rightarrow> sse_server \<Rightarrow> sse_server" where
  "sse_run [] s = s"
| "sse_run (e # es) s = sse_run es (sse_step e s)"

fun requests :: "sse_event list \<Rightarrow> res list" where
  "requests [] = []"
| "requests (GetEvents r # es) = r # requests es"
| "requests (_ # es) = requests es"

section \<open>The streaming client: SSE/client/client.js\<close>

datatype client_log =
    ReceivedChunk js_string
  | ParsedData json
  | AllHeaders "(string \<times> string) list"

text \<open>
  The body of the loop for one decoded chunk (lines 16 to 24): the lines logged, and
  \<open>Inl\<close> when \<open>JSON.parse\<close> throws.
\<close>

definition onChunk ::
  "(string \<times> string) list \<Rightarrow> js_string \<Rightarrow>
   (syntax_error \<times> client_log list + client_log list) option" where
  "onChunk hs chunk =
     (if js_includes chunk (lit ''data:'') then
        (let data = trim (replace chunk (lit ''data: '') [])
         in case JSON_parse data of
              None \<Rightarrow> None
            | Some (Inl e) \<Rightarrow> Some (Inl (e, [ReceivedChunk chunk]))
            | Some (Inr v) \<Rightarrow> Some (Inr [ReceivedChunk chunk, ParsedData v, AllHeaders hs]))
      else Some (Inr [ReceivedChunk chunk]))"

text \<open>
  \<open>startSSE\<close> on a response with headers \<open>hs\<close> whose body yields the chunks of the
  list and then ends. Nothing catches the exception of \<open>JSON.parse\<close>: it ends the
  loop.
\<close>

fun startSSE ::
  "(string \<times> string) list \<Rightarrow> js_string list \<Rightarrow>
   (syntax_error \<times> client_log list + client_log list) option" where
  "startSSE hs [] = Some (Inr [])"
| "startSSE hs (chunk # chunks) =
     (case onChunk hs chunk of
        None \<Rightarrow> None
      | Some (Inl x) \<Rightarrow> Some (Inl x)
      | Some (Inr logs) \<Rightarrow>
          (case startSSE hs chunks of
             None \<Rightarrow> None
           | Some (Inl (e, logs')) \<Rightarrow> Some (Inl (e, logs @ logs'))
           | Some (Inr logs') \<Rightarrow> Some (Inr (logs @ logs'))))"

text \<open>
  Characters that a JSON string literal holds as they are; and a string with every
  digit replaced by \<open>0\<close>, which shows its layout.
\<close>

definition plain :: "16 word \<Rightarrow> bool" where
  "plain c \<longleftrightarrow> \<not> c < 0x20 \<and> c \<noteq> 0x22 \<and> c \<noteq> 0x5C \<and> c \<noteq> 0x0A \<and> \<not> is_surrogate c"

definition digits_to_zero :: "js_string \<Rightarrow> js_string" where
  "digits_to_zero s = map (\<lambda>c. if is_digit c then 0x30 else c) s"

text \<open>Times and chunks used in the examples below.\<close>

definition readme_date :: date where
  "readme_date = \<lparr>year = 2025, month = 12, day = 23, hours = 15, minutes = 22,
                   seconds = 29, milliseconds = 986\<rparr>"

definition inner_data_chunk :: js_string where
  "inner_data_chunk =
     lit ''data:{'' @ [0x22] @ lit ''msg'' @ [0x22] @ lit '':'' @ [0x22] @ lit ''data: x''
       @ [0x22] @ lit ''}'' @ [0x0A, 0x0A]"

definition prefixed_inner_data_chunk :: js_string where
  "prefixed_inner_data_chunk =
     lit ''data: {'' @ [0x22] @ lit ''msg'' @ [0x22] @ lit '':'' @ [0x22] @ lit ''data: x''
       @ [0x22] @ lit ''}'' @ [0x0A, 0x0A]"

section \<open>Properties of the relay\<close>

lemma set_add_distinct: "distinct xs \<Longrightarrow> distinct (set_add x xs)"
  by (simp add: set_add_def)

lemma set_delete_distinct: "distinct xs \<Longrightarrow> distinct (set_delete x xs)"
  by (simp add: set_delete_def distinct_removeAll)

lemma set_set_add: "set (set_add x xs) = insert x (set xs)"
  by (auto simp: set_add_def)

lemma set_set_delete: "set (set_delete x xs) = set xs - {x}"
  by (auto simp: set_delete_def)

lemma clients_onConnection: "clients (onConnection c s) = set_add c (clients s)"
  by (simp add: onConnection_def Let_def)

lemma clients_onClose: "clients (onClose c s) = set_delete c (clients s)"
  by (simp add: onClose_def Let_def)

lemma clients_onMessage:
  "clients (state_of (onMessage send toString a d s)) = clients s"
  by (simp add: onMessage_def state_of_def Let_def split: prod.splits option.splits)

lemma run_snoc:
  "run send toString (evs @ [e]) s =
     (case run send toString evs s of
        Inl x \<Rightarrow> Inl x
      | Inr s' \<Rightarrow> dispatch send toString e s')"
  by (induction evs arbitrary: s) (auto split: sum.splits)

lemma cnc_Nil: "connected_not_closed [] = {}"
  by (simp add: connected_not_closed_def)

lemma snoc_split:
  "(evs @ [e] = pre @ x # post) \<longleftrightarrow>
     (post = [] \<and> pre = evs \<and> x = e) \<or> (\<exists>post'. post = post' @ [e] \<and> evs = pre @ x # post')"
  by (cases post rule: rev_cases) auto

lemma cnc_snoc_iff:
  "c \<in> connected_not_closed (evs @ [e]) \<longleftrightarrow>
     e = Connection c \<or> (c \<in> connected_not_closed evs \<and> e \<noteq> Close c)"
proof
  assume "c \<in> connected_not_closed (evs @ [e])"
  then obtain pre post where eq: "evs @ [e] = pre @ Connection c # post"
    and nc: "Close c \<notin> set post"
    by (auto simp: connected_not_closed_def)
  from eq consider "post = []" "pre = evs" "Connection c = e"
    | post' where "post = post' @ [e]" "evs = pre @ Connection c # post'"
    by (auto simp: snoc_split)
  then show "e = Connection c \<or> (c \<in> connected_not_closed evs \<and> e \<noteq> Close c)"
  proof cases
    case 1
    then show ?thesis by simp
  next
    case 2
    with nc show ?thesis by (auto simp: connected_not_closed_def)
  qed
next
  assume "e = Connection c \<or> (c \<in> connected_not_closed evs \<and> e \<noteq> Close c)"
  then show "c \<in> connected_not_closed (evs @ [e])"
  proof
    assume "e = Connection c"
    then have "evs @ [e] = evs @ Connection c # [] \<and> Close c \<notin> set []" by simp
    then show ?thesis unfolding connected_not_closed_def by blast
  next
    assume a: "c \<in> connected_not_closed evs \<and> e \<noteq> Close c"
    then obtain pre post where "evs = pre @ Connection c # post" "Close c \<notin> set post"
      by (auto simp: connected_not_closed_def)
    with a have "evs @ [e] = pre @ Connection c # (post @ [e]) \<and> Close c \<notin> set (post @ [e])"
      by auto
    then show ?thesis unfolding connected_not_closed_def by blast
  qed
qed

lemma cnc_snoc:
  "connected_not_closed (evs @ [e]) =
     (case e of
        Connection c \<Rightarrow> insert c (connected_not_closed evs)
      | Close c \<Rightarrow> connected_not_closed evs - {c}
      | _ \<Rightarrow> connected_not_closed evs)"
  by (cases e) (auto simp: cnc_snoc_iff)

lemma clients_dispatch:
  "clients (state_of (dispatch send toString e s)) =
     (case e of
        Connection c \<Rightarrow> set_add c (clients s)
      | Close c \<Rightarrow> set_delete c (clients s)
      | _ \<Rightarrow> clients s)"
proof (cases e)
  case (Message a d)
  then show ?thesis using clients_onMessage[of send toString a d s] by simp
qed (simp_all add: state_of_def clients_onConnection clients_onClose)

lemma clients_run_Inr:
  "run send toString evs init = Inr s \<Longrightarrow> set (clients s) = connected_not_closed evs"
proof (induction evs arbitrary: s rule: rev_induct)
  case Nil
  then have "s = init" by simp
  then show ?case by (simp add: cnc_Nil init_def)
next
  case (snoc e evs)
  from snoc.prems have c: "(case run send toString evs init of
        Inl x \<Rightarrow> Inl x | Inr s' \<Rightarrow> dispatch send toString e s') = Inr s"
    by (simp only: run_snoc)
  then obtain s' where r: "run send toString evs init = Inr s'"
    by (cases "run send toString evs init") simp_all
  with c have d: "dispatch send toString e s' = Inr s" by simp
  have ih: "set (clients s') = connected_not_closed evs" using snoc.IH r by simp
  have "clients s = clients (state_of (dispatch send toString e s'))"
    by (simp only: d state_of_def sum.case)
  then have "set (clients s) = (case e of
        Connection c \<Rightarrow> insert c (set (clients s'))
      | Close c \<Rightarrow> set (clients s') - {c}
      | _ \<Rightarrow> set (clients s'))"
    by (simp only: clients_dispatch) (simp add: set_set_add set_set_delete split: event.splits)
  then show ?case by (simp only: ih cnc_snoc)
qed

lemma run_total:
  "\<not> list_ex is_message evs \<Longrightarrow> \<exists>s'. run send toString evs s = Inr s'"
proof (induction evs arbitrary: s)
  case Nil then show ?case by simp
next
  case (Cons e evs)
  then show ?case by (cases e) auto
qed

lemma distinct_dispatch:
  assumes "distinct (clients s)"
  shows "distinct (clients (state_of (dispatch send toString e s)))"
proof (cases e)
  case (Message a d)
  then show ?thesis using assms clients_onMessage[of send toString a d s] by simp
qed (use assms in \<open>simp_all add: state_of_def clients_onConnection clients_onClose set_add_distinct set_delete_distinct\<close>)

lemma distinct_run:
  "distinct (clients s) \<Longrightarrow> distinct (clients (state_of (run send toString evs s)))"
proof (induction evs arbitrary: s)
  case Nil then show ?case by (simp add: state_of_def)
next
  case (Cons e evs)
  show ?case
  proof (cases "dispatch send toString e s")
    case (Inl x)
    with distinct_dispatch[OF Cons.prems, of send toString e] show ?thesis by simp
  next
    case (Inr s')
    with distinct_dispatch[OF Cons.prems, of send toString e] have "distinct (clients s')"
      by (simp add: state_of_def)
    from Cons.IH[OF this] Inr show ?thesis by simp
  qed
qed


text \<open>
  C6. Adding is idempotent: a second \<open>'connection'\<close> call for the same socket, or
  one for a socket that is already a member, leaves \<open>clients\<close> as it is; and
  whatever has happened since the start, no socket is in \<open>clients\<close> twice.
\<close>

theorem registry_add_idempotent:
  "clients (onConnection c (onConnection c s)) = clients (onConnection c s) \<and>
   (c \<in> set (clients s) \<longrightarrow> clients (onConnection c s) = clients s) \<and>
   distinct (clients (state_of (run send toString evs init)))"
proof -
  have "distinct (clients init)" by (simp add: init_def)
  then have "distinct (clients (state_of (run send toString evs init)))"
    by (rule distinct_run)
  then show ?thesis
    by (simp add: clients_onConnection set_add_def)
qed

theorem registry_add_idempotent_witness:
  "2 \<in> set (clients three_open) \<and>
   clients (onConnection 2 three_open) = clients three_open \<and>
   clients (state_of (run never_fails ascii_text [Connection 1, Connection 1] init)) = [1] \<and>
   distinct (clients (state_of (run never_fails ascii_text [Connection 1, Connection 1] init)))"
proof -
  have m: "2 \<in> set (clients three_open)" by (simp add: three_open_def)
  have e: "clients (state_of (run never_fails ascii_text [Connection 1, Connection 1] init)) = [1]"
    by (simp add: state_of_def onConnection_def set_add_def init_def Let_def)
  from m e registry_add_idempotent [of 2 three_open never_fails ascii_text
      "[Connection 1, Connection 1]"]
  show ?thesis by simp
qed

text \<open>
  C2. A run that has come to the end of its events has in \<open>clients\<close> exactly the
  sockets for which a connect event has fired and no close event has fired since;
  and a sequence of connect and close events (no message listener runs, so nothing
  can throw) always comes to its end.
\<close>

theorem registry_membership:
  "(run send toString evs init = Inr s \<longrightarrow> set (clients s) = connected_not_closed evs) \<and>
   (\<not> list_ex is_message evs \<longrightarrow> (\<exists>s'. run send toString evs init = Inr s'))"
  using clients_run_Inr [of send toString evs s] run_total [of evs send toString init]
  by blast

theorem registry_membership_witness:
  "\<not> list_ex is_message [Connection 1, Connection 2, Close 1, Connection 3] \<and>
   run never_fails ascii_text [Connection 1, Connection 2, Close 1, Connection 3] init =
     Inr (init\<lparr>clients := [2, 3],
               console := [Listening, ClientConnected 1, ClientConnected 2,
                           ClientDisconnected 1, ClientConnected 2]\<rparr>) \<and>
   connected_not_closed [Connection 1, Connection 2, Close 1, Connection 3] = {2, 3}"
proof -
  let ?evs = "[Connection 1, Connection 2, Close 1, Connection 3]"
  let ?s = "init\<lparr>clients := [2, 3],
               console := [Listening, ClientConnected 1, ClientConnected 2,
                           ClientDisconnected 1, ClientConnected 2]\<rparr>"
  have r: "run never_fails ascii_text ?evs init = Inr ?s"
    by (simp add: onConnection_def onClose_def set_add_def set_delete_def set_size_def init_def)
  have "set (clients ?s) = connected_not_closed ?evs"
    using registry_membership [of never_fails ascii_text ?evs ?s] r by blast
  then have "connected_not_closed ?evs = {2, 3}" by (simp add: insert_commute)
  with r show ?thesis by simp
qed

lemma broadcast_closed_form:
  "broadcast send rs a msg cs =
     (map (\<lambda>c. \<lparr>recipient = c, origin = a, payload = msg\<rparr>)
        (takeWhile (\<lambda>c. send c msg = None) (targets rs a cs)),
      case dropWhile (\<lambda>c. send c msg = None) (targets rs a cs) of
        [] \<Rightarrow> None
      | c # _ \<Rightarrow> send c msg)"
  by (induction cs) (auto simp: targets_def split: option.splits)

lemma distinct_targets: "distinct cs \<Longrightarrow> distinct (targets rs a cs)"
  by (simp add: targets_def)

lemma filter_eq_distinct:
  "distinct xs \<Longrightarrow> filter (\<lambda>c. c = x) xs = (if x \<in> set xs then [x] else [])"
  by (induction xs) auto

lemma copies_for_map:
  "copies_for r (map (\<lambda>c. \<lparr>recipient = c, origin = a, payload = msg\<rparr>) xs) =
     map (\<lambda>c. msg) (filter (\<lambda>c. c = r) xs)"
  by (induction xs) (auto simp: copies_for_def)

lemma copies_for_distinct:
  "distinct xs \<Longrightarrow>
   copies_for r (map (\<lambda>c. \<lparr>recipient = c, origin = a, payload = msg\<rparr>) xs) =
     (if r \<in> set xs then [msg] else [])"
  by (simp add: copies_for_map filter_eq_distinct)

lemma sent_onMessage:
  "sent (state_of (onMessage send toString a d s)) =
     sent s @ fst (broadcast send (readyState s) a (toString d) (clients s))"
  by (simp add: onMessage_def state_of_def Let_def split: prod.splits option.splits)

lemma delivered_onMessage:
  "delivered s (state_of (onMessage send toString a d s)) =
     fst (broadcast send (readyState s) a (toString d) (clients s))"
  by (simp add: delivered_def sent_onMessage)

lemma onMessage_closed_form:
  "onMessage send toString a d s =
     (let msg = toString d;
          ts = targets (readyState s) a (clients s);
          s' = s\<lparr>console := console s @ [Received msg],
                 sent := sent s @ map (\<lambda>c. \<lparr>recipient = c, origin = a, payload = msg\<rparr>)
                                    (takeWhile (\<lambda>c. send c msg = None) ts)\<rparr>
      in case dropWhile (\<lambda>c. send c msg = None) ts of
           [] \<Rightarrow> Inr s'
         | c # _ \<Rightarrow> (case send c msg of None \<Rightarrow> Inr s' | Some e \<Rightarrow> Inl (e, s')))"
proof (cases "dropWhile (\<lambda>c. send c (toString d) = None) (targets (readyState s) a (clients s))")
  case Nil
  show ?thesis
    unfolding onMessage_def broadcast_closed_form Let_def
    by (simp add: Nil del: dropWhile_eq_Nil_conv)
next
  case (Cons c rest)
  then have "send c (toString d) \<noteq> None"
    by (simp add: dropWhile_eq_Cons_conv)
  then obtain e where "send c (toString d) = Some e" by auto
  with Cons show ?thesis
    by (simp add: onMessage_def broadcast_closed_form Let_def)
qed

lemma targets_member:
  "c \<in> set (targets rs a cs) \<longleftrightarrow> c \<in> set cs \<and> c \<noteq> a \<and> rs c = OPEN"
  by (auto simp: targets_def)

lemma delivered_closed_form:
  "delivered s (state_of (onMessage send toString a d s)) =
     map (\<lambda>c. \<lparr>recipient = c, origin = a, payload = toString d\<rparr>)
       (takeWhile (\<lambda>c. send c (toString d) = None) (targets (readyState s) a (clients s)))"
  by (simp add: delivered_onMessage broadcast_closed_form)

lemma isl_onMessage:
  "isl (onMessage send toString a d s) \<longleftrightarrow>
     (\<exists>c \<in> set (targets (readyState s) a (clients s)). send c (toString d) \<noteq> None)"
proof (cases "dropWhile (\<lambda>c. send c (toString d) = None) (targets (readyState s) a (clients s))")
  case Nil
  then have "\<forall>c \<in> set (targets (readyState s) a (clients s)). send c (toString d) = None"
    by simp
  moreover have "\<not> isl (onMessage send toString a d s)"
    unfolding onMessage_closed_form Let_def by (simp add: Nil del: dropWhile_eq_Nil_conv)
  ultimately show ?thesis by simp
next
  case (Cons c rest)
  then have n: "send c (toString d) \<noteq> None"
    by (simp add: dropWhile_eq_Cons_conv)
  have "c \<in> set (dropWhile (\<lambda>c. send c (toString d) = None) (targets (readyState s) a (clients s)))"
    by (simp only: Cons list.set_intros)
  then have m: "c \<in> set (targets (readyState s) a (clients s))"
    by (rule set_dropWhileD)
  from n obtain e where "send c (toString d) = Some e" by auto
  with Cons have "isl (onMessage send toString a d s)"
    unfolding onMessage_closed_form Let_def by simp
  with n m show ?thesis by auto
qed

text \<open>
  C1. In a state where no socket is in \<open>clients\<close> twice (every state of a run is
  one), with \<open>B\<close> and \<open>C\<close> open members other than the sender \<open>A\<close> and no call
  of \<open>send\<close> throwing, the message listener returns, \<open>B\<close> and \<open>C\<close> have each
  been handed the text \<open>data.toString()\<close> exactly once, as it is, and \<open>A\<close> has
  been handed nothing.
\<close>

theorem relay_exactly_once:
  assumes "distinct (clients s)"
    and "B \<in> set (clients s)" and "C \<in> set (clients s)"
    and "B \<noteq> A" and "C \<noteq> A"
    and "readyState s B = OPEN" and "readyState s C = OPEN"
    and "\<forall>c \<in> set (clients s). send c (toString data) = None"
  shows "\<exists>s'. onMessage send toString A data s = Inr s' \<and>
              copies_for B (delivered s s') = [toString data] \<and>
              copies_for C (delivered s s') = [toString data] \<and>
              copies_for A (delivered s s') = []"
proof -
  let ?ts = "targets (readyState s) A (clients s)"
  have ok: "\<forall>c \<in> set ?ts. send c (toString data) = None"
    using assms(8) by (simp add: targets_member)
  then have "\<not> isl (onMessage send toString A data s)"
    by (simp add: isl_onMessage)
  then obtain s' where r: "onMessage send toString A data s = Inr s'"
    by (cases "onMessage send toString A data s") simp_all
  have tw: "takeWhile (\<lambda>c. send c (toString data) = None) ?ts = ?ts"
    using ok by (simp add: takeWhile_eq_all_conv)
  have "delivered s (state_of (onMessage send toString A data s)) =
      map (\<lambda>c. \<lparr>recipient = c, origin = A, payload = toString data\<rparr>) ?ts"
    by (simp only: delivered_closed_form tw)
  then have d: "delivered s s' =
      map (\<lambda>c. \<lparr>recipient = c, origin = A, payload = toString data\<rparr>) ?ts"
    by (simp add: r state_of_def)
  have dt: "distinct ?ts" using assms(1) by (rule distinct_targets)
  have "B \<in> set ?ts" "C \<in> set ?ts" "A \<notin> set ?ts"
    using assms by (simp_all add: targets_member)
  then have "copies_for B (delivered s s') = [toString data]"
    "copies_for C (delivered s s') = [toString data]"
    "copies_for A (delivered s s') = []"
    by (simp_all add: d copies_for_distinct [OF dt])
  with r show ?thesis by blast
qed

theorem relay_exactly_once_witness:
  "onMessage never_fails ascii_text 1 hello three_open =
     Inr (three_open\<lparr>sent := [\<lparr>recipient = 2, origin = 1, payload = ascii_text hello\<rparr>,
                               \<lparr>recipient = 3, origin = 1, payload = ascii_text hello\<rparr>],
                      console := console three_open @ [Received (ascii_text hello)]\<rparr>) \<and>
   (\<exists>s'. onMessage never_fails ascii_text 1 hello three_open = Inr s' \<and>
         copies_for 2 (delivered three_open s') = [ascii_text hello] \<and>
         copies_for 3 (delivered three_open s') = [ascii_text hello] \<and>
         copies_for 1 (delivered three_open s') = [])"
proof -
  have e: "onMessage never_fails ascii_text 1 hello three_open =
     Inr (three_open\<lparr>sent := [\<lparr>recipient = 2, origin = 1, payload = ascii_text hello\<rparr>,
                               \<lparr>recipient = 3, origin = 1, payload = ascii_text hello\<rparr>],
                      console := console three_open @ [Received (ascii_text hello)]\<rparr>)"
    by (simp add: onMessage_def three_open_def never_fails_def Let_def)
  have "\<exists>s'. onMessage never_fails ascii_text 1 hello three_open = Inr s' \<and>
         copies_for 2 (delivered three_open s') = [ascii_text hello] \<and>
         copies_for 3 (delivered three_open s') = [ascii_text hello] \<and>
         copies_for 1 (delivered three_open s') = []"
    by (rule relay_exactly_once) (simp_all add: three_open_def never_fails_def)
  with e show ?thesis by blast
qed

text \<open>
  C3, as stated, fails: with sockets 1, 2, 3 open, a message of 1 and a \<open>send\<close>
  that throws on 2, the exception leaves the listener of 1, socket 3 is handed
  nothing although its own \<open>send\<close> would return, and nothing but the receipt is
  logged.
\<close>

theorem send_failure_not_isolated:
  "3 \<in> set (clients three_open) \<and> readyState three_open 3 = OPEN \<and>
   fails_at 2 3 (ascii_text hello) = None \<and>
   onMessage (fails_at 2) ascii_text 1 hello three_open =
     Inl (SendError 2,
          three_open\<lparr>console := console three_open @ [Received (ascii_text hello)]\<rparr>) \<and>
   copies_for 3 (delivered three_open
     (state_of (onMessage (fails_at 2) ascii_text 1 hello three_open))) = []"
  by (simp add: onMessage_def three_open_def fails_at_def Let_def state_of_def
      delivered_def copies_for_def)

text \<open>
  C3, amended. The listener logs the receipt and calls \<open>send\<close> on the open
  members other than the sender, in the order of the set, up to the first call that
  throws; that exception, if any, leaves the listener uncaught and unlogged, and the
  members after it are handed nothing. When no call throws the listener returns
  and every open member other than the sender has been handed the text.
\<close>

theorem send_failure_ends_broadcast:
  "onMessage send toString A data s =
     (let msg = toString data;
          ts = targets (readyState s) A (clients s);
          s' = s\<lparr>console := console s @ [Received msg],
                 sent := sent s @ map (\<lambda>c. \<lparr>recipient = c, origin = A, payload = msg\<rparr>)
                                    (takeWhile (\<lambda>c. send c msg = None) ts)\<rparr>
      in case dropWhile (\<lambda>c. send c msg = None) ts of
           [] \<Rightarrow> Inr s'
         | c # _ \<Rightarrow> (case send c msg of None \<Rightarrow> Inr s' | Some e \<Rightarrow> Inl (e, s')))"
  by (rule onMessage_closed_form)

lemma not_target_no_copies:
  assumes "B \<notin> set (targets (readyState s) A (clients s))"
  shows "copies_for B (delivered s (state_of (onMessage send toString A data s))) = []"
proof -
  have "B \<notin> set (takeWhile (\<lambda>c. send c (toString data) = None)
                    (targets (readyState s) A (clients s)))"
    using assms set_takeWhileD by fastforce
  then show ?thesis
    by (auto simp: delivered_closed_form copies_for_map filter_empty_conv)
qed

lemma not_target_no_error:
  assumes "B \<notin> set (targets (readyState s) A (clients s))"
    and "\<forall>c. c \<noteq> B \<longrightarrow> send c (toString data) = None"
  shows "\<not> isl (onMessage send toString A data s)"
  using assms by (auto simp: isl_onMessage)

text \<open>
  C4. A member \<open>B\<close> whose state is not open is handed nothing by the message
  listener, and so is a socket whose close listener has just run; and when the
  calls of \<open>send\<close> on the other sockets return, the listener returns too,
  whatever \<open>send\<close> would have done on \<open>B\<close>.
\<close>

theorem non_open_member_skipped:
  "(readyState s B \<noteq> OPEN \<longrightarrow>
      copies_for B (delivered s (state_of (onMessage send toString A data s))) = [] \<and>
      ((\<forall>c. c \<noteq> B \<longrightarrow> send c (toString data) = None) \<longrightarrow>
         \<not> isl (onMessage send toString A data s))) \<and>
   copies_for B (delivered (onClose B s)
     (state_of (onMessage send toString A data (onClose B s)))) = [] \<and>
   ((\<forall>c. c \<noteq> B \<longrightarrow> send c (toString data) = None) \<longrightarrow>
      \<not> isl (onMessage send toString A data (onClose B s)))"
proof -
  have 1: "readyState s B \<noteq> OPEN \<Longrightarrow> B \<notin> set (targets (readyState s) A (clients s))"
    by (simp add: targets_member)
  have 2: "B \<notin> set (targets (readyState (onClose B s)) A (clients (onClose B s)))"
    by (simp add: targets_member clients_onClose set_set_delete)
  show ?thesis
    using not_target_no_copies [OF 1, of send toString data]
      not_target_no_error [OF 1, of send toString data]
      not_target_no_copies [OF 2, of send toString data]
      not_target_no_error [OF 2, of send toString data]
    by blast
qed

theorem non_open_member_skipped_witness:
  "readyState two_closing 2 \<noteq> OPEN \<and> 2 \<in> set (clients two_closing) \<and>
   fails_at 2 2 (ascii_text hello) = Some (SendError 2) \<and>
   copies_for 2 (delivered two_closing
     (state_of (onMessage (fails_at 2) ascii_text 1 hello two_closing))) = [] \<and>
   \<not> isl (onMessage (fails_at 2) ascii_text 1 hello two_closing) \<and>
   copies_for 3 (delivered two_closing
     (state_of (onMessage (fails_at 2) ascii_text 1 hello two_closing))) = [ascii_text hello] \<and>
   copies_for 2 (delivered (onClose 2 three_open)
     (state_of (onMessage (fails_at 2) ascii_text 1 hello (onClose 2 three_open)))) = [] \<and>
   \<not> isl (onMessage (fails_at 2) ascii_text 1 hello (onClose 2 three_open))"
proof -
  have h: "\<forall>c. c \<noteq> 2 \<longrightarrow> fails_at 2 c (ascii_text hello) = None"
    by (simp add: fails_at_def)
  have a: "readyState two_closing 2 \<noteq> OPEN \<and> 2 \<in> set (clients two_closing) \<and>
      fails_at 2 2 (ascii_text hello) = Some (SendError 2)"
    by (simp add: two_closing_def three_open_def fails_at_def)
  have c: "copies_for 3 (delivered two_closing
     (state_of (onMessage (fails_at 2) ascii_text 1 hello two_closing))) = [ascii_text hello]"
    by (simp add: onMessage_def two_closing_def three_open_def fails_at_def Let_def
        state_of_def delivered_def copies_for_def)
  from h a c non_open_member_skipped [of two_closing 2 "fails_at 2" ascii_text 1 hello]
    non_open_member_skipped [of three_open 2 "fails_at 2" ascii_text 1 hello]
  show ?thesis by blast
qed

lemma relayed_map:
  "map payload (filter (\<lambda>d. recipient d = r \<and> origin d = a)
      (map (\<lambda>c. \<lparr>recipient = c, origin = b, payload = msg\<rparr>) xs)) =
     (if b = a then map (\<lambda>c. msg) (filter (\<lambda>c. c = r) xs) else [])"
  by (induction xs) auto

lemma relayed_onMessage:
  assumes "distinct (clients s)"
  shows "\<exists>n. relayed_to r a (state_of (onMessage send toString b d s)) = relayed_to r a s @ n \<and>
             subseq n (if b = a then [toString d] else [])"
proof -
  let ?xs = "takeWhile (\<lambda>c. send c (toString d) = None) (targets (readyState s) b (clients s))"
  let ?n = "if b = a then map (\<lambda>c. toString d) (filter (\<lambda>c. c = r) ?xs) else []"
  have "distinct (targets (readyState s) b (clients s))"
    using assms by (rule distinct_targets)
  then have "distinct ?xs" by (rule distinct_takeWhile)
  then have f: "filter (\<lambda>c. c = r) ?xs = (if r \<in> set ?xs then [r] else [])"
    by (rule filter_eq_distinct)
  have "relayed_to r a (state_of (onMessage send toString b d s)) = relayed_to r a s @ ?n"
    by (simp add: relayed_to_def sent_onMessage broadcast_closed_form relayed_map)
  moreover have "subseq ?n (if b = a then [toString d] else [])"
    by (simp only: f) (simp split: if_splits)
  ultimately show ?thesis by blast
qed

lemma relayed_dispatch:
  assumes "distinct (clients s)"
  shows "\<exists>n. relayed_to r a (state_of (dispatch send toString e s)) = relayed_to r a s @ n \<and>
             subseq n (messages_from a toString [e])"
proof (cases e)
  case (Message b d)
  have "messages_from a toString [Message b d] = (if b = a then [toString d] else [])"
    by simp
  with Message show ?thesis using relayed_onMessage [OF assms, of r a send toString b d]
    by (simp only: dispatch.simps)
qed (simp_all add: relayed_to_def state_of_def onConnection_def onClose_def Let_def)

lemma messages_from_Cons:
  "messages_from a toString (e # evs) = messages_from a toString [e] @ messages_from a toString evs"
  by (cases e) simp_all

lemma relayed_run:
  assumes "distinct (clients s)"
  shows "\<exists>n. relayed_to r a (state_of (run send toString evs s)) = relayed_to r a s @ n \<and>
             subseq n (messages_from a toString evs)"
  using assms
proof (induction evs arbitrary: s)
  case Nil
  then show ?case by (simp add: state_of_def)
next
  case (Cons e evs)
  from relayed_dispatch [OF Cons.prems, of r a send toString e]
  obtain n1 where n1: "relayed_to r a (state_of (dispatch send toString e s)) = relayed_to r a s @ n1"
    and s1: "subseq n1 (messages_from a toString [e])" by blast
  show ?case
  proof (cases "dispatch send toString e s")
    case (Inl x)
    then have "state_of (run send toString (e # evs) s) = state_of (dispatch send toString e s)"
      by simp
    moreover have "subseq n1 (messages_from a toString (e # evs))"
      using s1 by (subst messages_from_Cons) (rule list_emb_prefix)
    ultimately show ?thesis using n1 by auto
  next
    case (Inr s')
    then have st: "state_of (dispatch send toString e s) = s'" by (simp add: state_of_def)
    have "distinct (clients s')"
      using distinct_dispatch [OF Cons.prems, of send toString e] st by simp
    from Cons.IH [OF this] obtain n2
      where n2: "relayed_to r a (state_of (run send toString evs s')) = relayed_to r a s' @ n2"
        and s2: "subseq n2 (messages_from a toString evs)" by blast
    have "relayed_to r a (state_of (run send toString (e # evs) s)) = relayed_to r a s @ (n1 @ n2)"
      using Inr n1 n2 st by simp
    moreover have "subseq (n1 @ n2) (messages_from a toString (e # evs))"
      using s1 s2 by (subst messages_from_Cons) (rule list_emb_append_mono)
    ultimately show ?thesis by blast
  qed
qed

text \<open>
  C5. Whatever the events and whatever \<open>send\<close> does, the texts a recipient \<open>r\<close>
  has been handed from a sender \<open>a\<close> are, in their order, a subsequence of the
  texts the relay received from \<open>a\<close>: a message of \<open>a\<close> is never handed over
  before an earlier message of \<open>a\<close>. Nothing is claimed about two senders.
\<close>

theorem per_sender_fifo:
  "subseq (relayed_to r a (state_of (run send toString evs init)))
          (messages_from a toString evs)"
proof -
  have "distinct (clients init)" by (simp add: init_def)
  from relayed_run [OF this, of r a send toString evs]
  show ?thesis by (auto simp: relayed_to_def init_def)
qed

text \<open>
  The scenario of the specification: 1 sends a message, 2 disconnects, 1 sends a
  second message. Socket 3 is handed both, in this order; socket 2 the first only.
\<close>

lemma relay_scenario:
  "relayed_to 3 1 (state_of (run never_fails ascii_text
      [Message 1 [0x6D, 0x31], ReadyState 2 CLOSED, Close 2, Message 1 [0x6D, 0x32]]
      three_open)) = [lit ''m1'', lit ''m2''] \<and>
   relayed_to 2 1 (state_of (run never_fails ascii_text
      [Message 1 [0x6D, 0x31], ReadyState 2 CLOSED, Close 2, Message 1 [0x6D, 0x32]]
      three_open)) = [lit ''m1'']"
  by (simp add: relayed_to_def state_of_def onMessage_def onClose_def three_open_def
      never_fails_def ascii_text_def set_delete_def set_size_def lit_def Let_def)

section \<open>Properties of the chat client\<close>

lemma trim_empty_iff: "trim line = [] \<longleftrightarrow> list_all is_white_space line"
proof
  assume "trim line = []"
  then have a: "\<forall>x \<in> set (dropWhile is_white_space line). is_white_space x"
    by (simp add: trim_def)
  have "dropWhile is_white_space line = []"
  proof (rule ccontr)
    assume n: "dropWhile is_white_space line \<noteq> []"
    then have "\<not> is_white_space (hd (dropWhile is_white_space line))"
      by (rule hd_dropWhile)
    moreover have "hd (dropWhile is_white_space line) \<in> set (dropWhile is_white_space line)"
      using n by (rule hd_in_set)
    ultimately show False using a by blast
  qed
  then show "list_all is_white_space line"
    by (simp add: list_all_iff)
next
  assume "list_all is_white_space line"
  then show "trim line = []"
    by (auto simp: trim_def list_all_iff dest: set_dropWhileD)
qed

text \<open>
  C7. The callback of the line input sends nothing for a line that is empty or
  holds white space only (the white space that \<open>trim\<close> takes off), and sends any
  other line, as it was typed, behind the label \<open>user2: \<close>.
\<close>

theorem blank_lines_discarded:
  "onLine line =
     (if list_all is_white_space line then None else Some (lit ''user2: '' @ line))"
  by (simp add: onLine_def trim_empty_iff)

lemma blank_lines_examples:
  "onLine [] = None \<and>
   onLine (lit '' '' @ [0x09, 0x3000, 0xA0]) = None \<and>
   onLine (lit '' hi '') = Some (lit ''user2:  hi '')"
  by (simp add: onLine_def trim_def lit_def is_white_space_def)

section \<open>Properties of the JSON reader\<close>

text \<open>
  A value that is read leaves a shorter text behind, so the budget of
  \<open>JSON_parse\<close> is never used up: \<open>JSON.parse\<close> and \<open>startSSE\<close> return or
  throw.
\<close>

lemma skip_ws_length: "length (skip_ws cs) \<le> length cs"
  by (simp add: skip_ws_def length_dropWhile_le)

lemma parse_chars_shorter:
  "parse_chars acc cs = Some (s, r) \<Longrightarrow> length r < length cs"
proof (induction acc cs arbitrary: s r rule: parse_chars.induct)
  case (1 acc)
  then show ?case by simp
next
  case (2 acc c)
  then show ?case by (simp split: if_splits)
next
  case (3 acc c e cs)
  show ?case
  proof (cases "c = 0x22")
    case True
    with "3.prems" show ?thesis by simp
  next
    case q: False
    show ?thesis
    proof (cases "c = 0x5C")
      case b: True
      show ?thesis
      proof (cases "e = 0x75")
        case u: True
        from "3.prems" q b u obtain h1 h2 h3 h4 cs' v where
          cs: "cs = h1 # h2 # h3 # h4 # cs'" and h: "hex4 h1 h2 h3 h4 = Some v"
          and p: "parse_chars (v # acc) cs' = Some (s, r)"
          by (auto split: list.splits option.splits)
        from "3.IH"(1) [OF q b u cs refl refl refl h p] cs show ?thesis by simp
      next
        case nu: False
        from "3.prems" q b nu obtain v where un: "unescape e = Some v"
          and p: "parse_chars (v # acc) cs = Some (s, r)"
          by (auto split: option.splits)
        from "3.IH"(2) [OF q b nu un p] show ?thesis by simp
      qed
    next
      case nb: False
      from "3.prems" q nb have c: "\<not> c < 0x20" and p: "parse_chars (c # acc) (e # cs) = Some (s, r)"
        by (auto split: if_splits)
      from "3.IH"(3) [OF q nb c p] show ?thesis by simp
    qed
  qed
qed

lemma parse_digits_shorter: "parse_digits cs = Some (ds, r) \<Longrightarrow> length r < length cs"
proof -
  assume a: "parse_digits cs = Some (ds, r)"
  then have "takeWhile is_digit cs \<noteq> []" and r: "r = dropWhile is_digit cs"
    by (auto simp: parse_digits_def split: list.splits)
  then have "length (takeWhile is_digit cs) > 0" by simp
  moreover have "length (takeWhile is_digit cs) + length (dropWhile is_digit cs) = length cs"
    by (metis length_append takeWhile_dropWhile_id)
  ultimately show ?thesis unfolding r by linarith
qed

lemma parse_int_shorter: "parse_int cs = Some (ds, r) \<Longrightarrow> length r < length cs"
  by (auto simp: parse_int_def split: list.splits if_splits dest: parse_digits_shorter)

lemma parse_frac_shorter: "parse_frac cs = Some (ds, r) \<Longrightarrow> length r \<le> length cs"
  by (auto simp: parse_frac_def split: list.splits if_splits option.splits
      dest!: parse_digits_shorter)

lemma parse_exp_shorter: "parse_exp cs = Some (ds, r) \<Longrightarrow> length r \<le> length cs"
  by (auto simp: parse_exp_def split: list.splits if_splits option.splits
      dest!: parse_digits_shorter)

lemma parse_number_shorter: "parse_number cs = Some (n, r) \<Longrightarrow> length r < length cs"
proof -
  assume a: "parse_number cs = Some (n, r)"
  obtain sign cs1 where s: "(case cs of c # rest \<Rightarrow> if c = 0x2D then ([c], rest) else ([], cs)
                         | [] \<Rightarrow> ([], cs)) = (sign, cs1)"
    by fastforce
  then have l1: "length cs1 \<le> length cs" by (auto split: list.splits if_splits)
  from a s obtain i cs2 f cs3 e where "parse_int cs1 = Some (i, cs2)"
    "parse_frac cs2 = Some (f, cs3)" "parse_exp cs3 = Some (e, r)"
    by (auto simp: parse_number_def split: option.splits)
  then have "length cs2 < length cs1" "length cs3 \<le> length cs2" "length r \<le> length cs3"
    by (auto dest: parse_int_shorter parse_frac_shorter parse_exp_shorter)
  with l1 show ?thesis by linarith
qed

lemma skip_ws_Cons_shorter: "skip_ws cs = c # rest \<Longrightarrow> length rest < length cs"
  using skip_ws_length [of cs] by simp

lemma parse_value_step_shorter:
  assumes e: "\<And>acc cs v r. parse_elements n acc cs = Some (Inr (v, r)) \<Longrightarrow> length r < length cs"
    and m: "\<And>acc cs v r. parse_members n acc cs = Some (Inr (v, r)) \<Longrightarrow> length r < length cs"
    and p: "parse_value (Suc n) cs = Some (Inr (v, r))"
  shows "length r < length cs"
proof (cases "skip_ws cs")
  case Nil
  with p show ?thesis by simp
next
  case (Cons c rest)
  then have l: "length rest < length cs" by (rule skip_ws_Cons_shorter)
  consider (obj) "c = 0x7B" | (arr) "c \<noteq> 0x7B" "c = 0x5B" | (str) "c \<noteq> 0x7B" "c \<noteq> 0x5B" "c = 0x22"
    | (other) "c \<noteq> 0x7B" "c \<noteq> 0x5B" "c \<noteq> 0x22"
    by blast
  then show ?thesis
  proof cases
    case obj
    show ?thesis
    proof (cases "skip_ws rest")
      case Nil
      with p Cons obj show ?thesis by simp
    next
      case c2: (Cons c' rest')
      then have l2: "length rest' < length rest" by (rule skip_ws_Cons_shorter)
      show ?thesis
      proof (cases "c' = 0x7D")
        case True
        with p Cons obj c2 have "r = rest'" by simp
        with l l2 show ?thesis by simp
      next
        case False
        with p Cons obj c2 have "parse_members n [] rest = Some (Inr (v, r))" by simp
        from m [OF this] l show ?thesis by simp
      qed
    qed
  next
    case arr
    show ?thesis
    proof (cases "skip_ws rest")
      case Nil
      with p Cons arr show ?thesis by simp
    next
      case c2: (Cons c' rest')
      then have l2: "length rest' < length rest" by (rule skip_ws_Cons_shorter)
      show ?thesis
      proof (cases "c' = 0x5D")
        case True
        with p Cons arr c2 have "r = rest'" by simp
        with l l2 show ?thesis by simp
      next
        case False
        with p Cons arr c2 have "parse_elements n [] rest = Some (Inr (v, r))" by simp
        from e [OF this] l show ?thesis by simp
      qed
    qed
  next
    case str
    with p Cons obtain s where "parse_chars [] rest = Some (s, r)"
      by (auto split: option.splits)
    from parse_chars_shorter [OF this] l show ?thesis by simp
  next
    case other
    have d: "length (drop k rest) < length cs" for k using l by simp
    from p Cons other consider "r = drop 3 rest" | "r = drop 4 rest"
      | x where "parse_number (c # rest) = Some (x, r)"
      by (auto split: if_splits option.splits)
    then show ?thesis
    proof cases
      case 3
      from parse_number_shorter [OF this] l show ?thesis by simp
    qed (use l in simp_all)
  qed
qed

lemma parse_elements_step_shorter:
  assumes pv: "\<And>cs v r. parse_value n cs = Some (Inr (v, r)) \<Longrightarrow> length r < length cs"
    and e: "\<And>acc cs v r. parse_elements n acc cs = Some (Inr (v, r)) \<Longrightarrow> length r < length cs"
    and p: "parse_elements (Suc n) acc cs = Some (Inr (v, r))"
  shows "length r < length cs"
proof -
  from p obtain x r1 where v: "parse_value n cs = Some (Inr (x, r1))"
    by (auto split: option.splits sum.splits)
  then have l1: "length r1 < length cs" by (rule pv)
  from p v obtain c r' where s: "skip_ws r1 = c # r'"
    by (auto split: list.splits)
  then have l2: "length r' < length r1" by (rule skip_ws_Cons_shorter)
  from p v s consider "parse_elements n (x # acc) r' = Some (Inr (v, r))" | "r = r'"
    by (auto split: if_splits)
  then show ?thesis
  proof cases
    case 1
    from e [OF this] l1 l2 show ?thesis by simp
  next
    case 2
    with l1 l2 show ?thesis by simp
  qed
qed

lemma parse_members_step_shorter:
  assumes pv: "\<And>cs v r. parse_value n cs = Some (Inr (v, r)) \<Longrightarrow> length r < length cs"
    and m: "\<And>acc cs v r. parse_members n acc cs = Some (Inr (v, r)) \<Longrightarrow> length r < length cs"
    and p: "parse_members (Suc n) acc cs = Some (Inr (v, r))"
  shows "length r < length cs"
proof -
  from p obtain q cs1 where s1: "skip_ws cs = q # cs1"
    by (auto split: list.splits)
  then have l1: "length cs1 < length cs" by (rule skip_ws_Cons_shorter)
  from p s1 have q: "q = 0x22" by (auto split: if_splits)
  from p s1 q obtain k cs2 where k: "parse_chars [] cs1 = Some (k, cs2)"
    by (auto split: option.splits)
  then have l2: "length cs2 < length cs1" by (rule parse_chars_shorter)
  from p s1 q k obtain colon cs3 where s2: "skip_ws cs2 = colon # cs3"
    by (auto split: list.splits)
  then have l3: "length cs3 < length cs2" by (rule skip_ws_Cons_shorter)
  from p s1 q k s2 have co: "colon = 0x3A" by (auto split: if_splits)
  from p s1 q k s2 co obtain x r1 where v: "parse_value n cs3 = Some (Inr (x, r1))"
    by (auto split: option.splits sum.splits)
  then have l4: "length r1 < length cs3" by (rule pv)
  from p s1 q k s2 co v obtain c r' where s3: "skip_ws r1 = c # r'"
    by (auto split: list.splits)
  then have l5: "length r' < length r1" by (rule skip_ws_Cons_shorter)
  from p s1 q k s2 co v s3
  consider "parse_members n ((k, x) # acc) r' = Some (Inr (v, r))" | "r = r'"
    by (auto split: if_splits)
  then show ?thesis
  proof cases
    case 1
    from m [OF this] l1 l2 l3 l4 l5 show ?thesis by simp
  next
    case 2
    with l1 l2 l3 l4 l5 show ?thesis by simp
  qed
qed

lemma parse_shorter:
  "(\<forall>cs v r. parse_value n cs = Some (Inr (v, r)) \<longrightarrow> length r < length cs) \<and>
   (\<forall>acc cs v r. parse_elements n acc cs = Some (Inr (v, r)) \<longrightarrow> length r < length cs) \<and>
   (\<forall>acc cs v r. parse_members n acc cs = Some (Inr (v, r)) \<longrightarrow> length r < length cs)"
proof (induction n)
  case 0
  then show ?case by simp
next
  case (Suc n)
  then have v: "\<And>cs v r. parse_value n cs = Some (Inr (v, r)) \<Longrightarrow> length r < length cs"
    and e: "\<And>acc cs v r. parse_elements n acc cs = Some (Inr (v, r)) \<Longrightarrow> length r < length cs"
    and m: "\<And>acc cs v r. parse_members n acc cs = Some (Inr (v, r)) \<Longrightarrow> length r < length cs"
    by blast+
  have "parse_value (Suc n) cs = Some (Inr (x, r)) \<Longrightarrow> length r < length cs" for cs x r
    by (rule parse_value_step_shorter [OF e m])
  moreover have "parse_elements (Suc n) acc cs = Some (Inr (x, r)) \<Longrightarrow> length r < length cs"
    for acc cs x r
    by (rule parse_elements_step_shorter [OF v e])
  moreover have "parse_members (Suc n) acc cs = Some (Inr (x, r)) \<Longrightarrow> length r < length cs"
    for acc cs x r
    by (rule parse_members_step_shorter [OF v m])
  ultimately show ?case by blast
qed

lemma parse_value_shorter:
  "parse_value n cs = Some (Inr (v, r)) \<Longrightarrow> length r < length cs"
  using parse_shorter [of n] by blast

lemma parse_value_step_total:
  assumes e: "\<And>acc cs. 2 * length cs + 2 \<le> n \<Longrightarrow> parse_elements n acc cs \<noteq> None"
    and m: "\<And>acc cs. 2 * length cs + 2 \<le> n \<Longrightarrow> parse_members n acc cs \<noteq> None"
    and f: "2 * length cs + 1 \<le> Suc n"
  shows "parse_value (Suc n) cs \<noteq> None"
proof (cases "skip_ws cs")
  case Nil
  then show ?thesis by simp
next
  case (Cons c rest)
  then have "length rest < length cs" by (rule skip_ws_Cons_shorter)
  with f have "2 * length rest + 2 \<le> n" by simp
  then have "parse_elements n [] rest \<noteq> None" "parse_members n [] rest \<noteq> None"
    by (simp_all add: e m)
  with Cons show ?thesis
    by (auto split: list.splits option.splits)
qed

lemma parse_elements_step_total:
  assumes pv: "\<And>cs. 2 * length cs + 1 \<le> n \<Longrightarrow> parse_value n cs \<noteq> None"
    and e: "\<And>acc cs. 2 * length cs + 2 \<le> n \<Longrightarrow> parse_elements n acc cs \<noteq> None"
    and f: "2 * length cs + 2 \<le> Suc n"
  shows "parse_elements (Suc n) acc cs \<noteq> None"
proof -
  from f have "parse_value n cs \<noteq> None" by (simp add: pv)
  then obtain x where x: "parse_value n cs = Some x" by auto
  show ?thesis
  proof (cases x)
    case (Inl a)
    with x show ?thesis by simp
  next
    case (Inr b)
    obtain v r1 where b: "b = (v, r1)" by (cases b)
    with x Inr have l1: "length r1 < length cs" by (auto dest: parse_value_shorter)
    show ?thesis
    proof (cases "skip_ws r1")
      case Nil
      with x Inr b show ?thesis by simp
    next
      case (Cons c r')
      then have "length r' < length r1" by (rule skip_ws_Cons_shorter)
      with l1 f have "2 * length r' + 2 \<le> n" by simp
      then have "parse_elements n (v # acc) r' \<noteq> None" by (rule e)
      with x Inr b Cons show ?thesis by simp
    qed
  qed
qed

lemma parse_members_step_total:
  assumes pv: "\<And>cs. 2 * length cs + 1 \<le> n \<Longrightarrow> parse_value n cs \<noteq> None"
    and m: "\<And>acc cs. 2 * length cs + 2 \<le> n \<Longrightarrow> parse_members n acc cs \<noteq> None"
    and f: "2 * length cs + 2 \<le> Suc n"
  shows "parse_members (Suc n) acc cs \<noteq> None"
proof (cases "skip_ws cs")
  case Nil
  then show ?thesis by simp
next
  case s1: (Cons q cs1)
  then have l1: "length cs1 < length cs" by (rule skip_ws_Cons_shorter)
  show ?thesis
  proof (cases "parse_chars [] cs1")
    case None
    with s1 show ?thesis by simp
  next
    case (Some kc)
    obtain k cs2 where kc: "kc = (k, cs2)" by (cases kc)
    with Some have l2: "length cs2 < length cs1" by (auto dest: parse_chars_shorter)
    show ?thesis
    proof (cases "skip_ws cs2")
      case Nil
      with s1 Some kc show ?thesis by simp
    next
      case s2: (Cons colon cs3)
      then have l3: "length cs3 < length cs2" by (rule skip_ws_Cons_shorter)
      with l1 l2 f have "parse_value n cs3 \<noteq> None" by (simp add: pv)
      then obtain x where x: "parse_value n cs3 = Some x" by auto
      show ?thesis
      proof (cases x)
        case (Inl a)
        with s1 Some kc s2 x show ?thesis by simp
      next
        case (Inr b)
        obtain v r1 where b: "b = (v, r1)" by (cases b)
        with x Inr have l4: "length r1 < length cs3" by (auto dest: parse_value_shorter)
        show ?thesis
        proof (cases "skip_ws r1")
          case Nil
          with s1 Some kc s2 x Inr b show ?thesis by simp
        next
          case s3: (Cons c r')
          then have "length r' < length r1" by (rule skip_ws_Cons_shorter)
          with l1 l2 l3 l4 f have "2 * length r' + 2 \<le> n" by simp
          then have "parse_members n ((k, v) # acc) r' \<noteq> None" by (rule m)
          with s1 Some kc s2 x Inr b s3 show ?thesis by simp
        qed
      qed
    qed
  qed
qed

lemma parse_total:
  "(\<forall>cs. 2 * length cs + 1 \<le> n \<longrightarrow> parse_value n cs \<noteq> None) \<and>
   (\<forall>acc cs. 2 * length cs + 2 \<le> n \<longrightarrow> parse_elements n acc cs \<noteq> None) \<and>
   (\<forall>acc cs. 2 * length cs + 2 \<le> n \<longrightarrow> parse_members n acc cs \<noteq> None)"
proof (induction n)
  case 0
  then show ?case by simp
next
  case (Suc n)
  then have v: "\<And>cs. 2 * length cs + 1 \<le> n \<Longrightarrow> parse_value n cs \<noteq> None"
    and e: "\<And>acc cs. 2 * length cs + 2 \<le> n \<Longrightarrow> parse_elements n acc cs \<noteq> None"
    and m: "\<And>acc cs. 2 * length cs + 2 \<le> n \<Longrightarrow> parse_members n acc cs \<noteq> None"
    by blast+
  have "2 * length cs + 1 \<le> Suc n \<Longrightarrow> parse_value (Suc n) cs \<noteq> None" for cs
    by (rule parse_value_step_total [OF e m])
  moreover have "2 * length cs + 2 \<le> Suc n \<Longrightarrow> parse_elements (Suc n) acc cs \<noteq> None"
    for acc cs
    by (rule parse_elements_step_total [OF v e])
  moreover have "2 * length cs + 2 \<le> Suc n \<Longrightarrow> parse_members (Suc n) acc cs \<noteq> None"
    for acc cs
    by (rule parse_members_step_total [OF v m])
  ultimately show ?case by blast
qed

lemma parse_value_total: "parse_value (Suc (2 * length text)) text \<noteq> None"
  using parse_total [of "Suc (2 * length text)"] by simp

lemma JSON_parse_total: "\<exists>r. JSON_parse text = Some r"
proof -
  obtain x where "parse_value (Suc (2 * length text)) text = Some x"
    using parse_value_total [of "text"] by auto
  then show ?thesis
    by (cases x) (auto simp: JSON_parse_def)
qed

lemma onChunk_total: "\<exists>r. onChunk hs chunk = Some r"
proof -
  obtain r where "JSON_parse (trim (replace chunk (lit ''data: '') [])) = Some r"
    using JSON_parse_total by blast
  then show ?thesis
    by (cases r) (simp_all add: onChunk_def Let_def)
qed

lemma startSSE_total: "\<exists>r. startSSE hs chunks = Some r"
proof (induction chunks)
  case Nil
  then show ?case by simp
next
  case (Cons chunk chunks)
  obtain x where x: "onChunk hs chunk = Some x" using onChunk_total by blast
  from Cons obtain y where y: "startSSE hs chunks = Some y" by blast
  show ?case
  proof (cases x)
    case (Inl a)
    with x show ?thesis by simp
  next
    case (Inr logs)
    with x y show ?thesis by (cases y) auto
  qed
qed

section \<open>Properties of the event source\<close>

lemma digit_cases:
  "digit n \<in> {0x30, 0x31, 0x32, 0x33, 0x34, 0x35, 0x36, 0x37, 0x38, 0x39}"
proof -
  have "k < 10 \<Longrightarrow> k \<in> {0, 1, 2, 3, 4, 5, 6, 7, 8, 9}" for k :: nat
    by auto
  then have "n mod 10 \<in> {0, 1, 2, 3, 4, 5, 6, 7, 8, 9}" by simp
  then show ?thesis by (auto simp: digit_def)
qed

lemma digit_plain: "plain (digit n)"
  using digit_cases [of n] by (auto simp: plain_def is_surrogate_def)

lemma digit_is_digit: "is_digit (digit n)"
  using digit_cases [of n] by (auto simp: is_digit_def)

lemma pad_plain: "list_all plain (pad w n)"
  by (induction w arbitrary: n) (simp_all add: digit_plain)

lemma pad_zero: "digits_to_zero (pad w n) = replicate w 0x30"
  by (induction w arbitrary: n)
    (simp_all add: digits_to_zero_def digit_is_digit replicate_append_same)

lemma digits_to_zero_append: "digits_to_zero (xs @ ys) = digits_to_zero xs @ digits_to_zero ys"
  by (simp add: digits_to_zero_def)

lemma toISOString_plain: "list_all plain (toISOString d)"
  by (simp add: toISOString_def pad_plain lit_def plain_def is_surrogate_def)

lemma toISOString_shape:
  "digits_to_zero (toISOString d) =
     (if 0 \<le> year d \<and> year d \<le> 9999 then lit ''0000-00-00T00:00:00.000Z''
      else if year d < 0 then lit ''-000000-00-00T00:00:00.000Z''
      else lit ''+000000-00-00T00:00:00.000Z'')"
proof -
  have l: "\<And>s. digits_to_zero (lit s) = map (\<lambda>c. if is_digit c then 0x30 else c) (lit s)"
    by (simp add: digits_to_zero_def)
  have n: "replicate 2 (0x30::16 word) = [0x30, 0x30]"
    "replicate 3 (0x30::16 word) = [0x30, 0x30, 0x30]"
    "replicate 4 (0x30::16 word) = [0x30, 0x30, 0x30, 0x30]"
    "replicate 6 (0x30::16 word) = [0x30, 0x30, 0x30, 0x30, 0x30, 0x30]"
    by (simp_all add: numeral_eq_Suc)
  show ?thesis
    by (simp add: toISOString_def digits_to_zero_append pad_zero n)
      (simp add: digits_to_zero_def lit_def is_digit_def)
qed

lemma escape_unit_plain: "plain c \<Longrightarrow> escape_unit c = [c]"
  by (auto simp: escape_unit_def plain_def)

lemma quote_units_plain: "list_all plain s \<Longrightarrow> quote_units s = s"
proof (induction s rule: quote_units.induct)
  case 1
  then show ?case by simp
next
  case (2 c)
  then show ?case by (simp add: escape_unit_plain)
next
  case (3 c d cs)
  from "3.prems" have p: "plain c" "plain d" "list_all plain cs" by simp_all
  then have nh: "\<not> (0xD800 \<le> c \<and> c \<le> 0xDBFF \<and> 0xDC00 \<le> d \<and> d \<le> 0xDFFF)"
    by (auto simp: plain_def is_surrogate_def word_le_nat_alt)
  from p have "list_all plain (d # cs)" by simp
  with nh have "quote_units (d # cs) = d # cs" by (rule "3.IH"(2))
  with nh p(1) show ?case
    by (simp only: quote_units.simps if_False escape_unit_plain append.simps)
qed

lemma parse_chars_quote: "parse_chars acc (0x22 # rest) = Some (rev acc, rest)"
  by (cases rest) simp_all

lemma parse_chars_plain_step:
  "plain c \<Longrightarrow> cs \<noteq> [] \<Longrightarrow> parse_chars acc (c # cs) = parse_chars (c # acc) cs"
  by (cases cs) (auto simp: plain_def)

lemma parse_chars_plain:
  "list_all plain s \<Longrightarrow> parse_chars acc (s @ 0x22 # rest) = Some (rev acc @ s, rest)"
proof (induction s arbitrary: acc)
  case Nil
  then show ?case by (simp add: parse_chars_quote)
next
  case (Cons c s)
  then have "parse_chars acc ((c # s) @ 0x22 # rest) = parse_chars (c # acc) (s @ 0x22 # rest)"
    by (simp add: parse_chars_plain_step)
  with Cons show ?case by simp
qed

lemma no_newline_plain: "list_all plain s \<Longrightarrow> 0x0A \<notin> set s"
  by (auto simp: list_all_iff plain_def)

lemma stringify_payload:
  "JSON_stringify (payload_object now) =
     lit ''{'' @ [0x22] @ lit ''msg'' @ [0x22] @ lit '':'' @ [0x22] @ lit ''Hello from fetch SSE''
       @ [0x22] @ lit '','' @ [0x22] @ lit ''time'' @ [0x22] @ lit '':'' @ [0x22]
       @ toISOString now @ [0x22] @ lit ''}''"
proof -
  have a: "quote_units (lit ''msg'') = lit ''msg''"
    "quote_units (lit ''time'') = lit ''time''"
    "quote_units (lit ''Hello from fetch SSE'') = lit ''Hello from fetch SSE''"
    by (rule quote_units_plain, simp add: lit_def plain_def is_surrogate_def)+
  have b: "quote_units (toISOString now) = toISOString now"
    by (rule quote_units_plain) (rule toISOString_plain)
  show ?thesis
    by (simp add: payload_object_def quote_def a b)
qed

lemma parse_payload_rest:
  assumes "list_all plain ts"
  shows "parse_value (Suc (Suc (Suc (Suc k))))
     (lit ''{'' @ [0x22] @ lit ''msg'' @ [0x22] @ lit '':'' @ [0x22] @ lit ''Hello from fetch SSE''
       @ [0x22] @ lit '','' @ [0x22] @ lit ''time'' @ [0x22] @ lit '':'' @ [0x22]
       @ ts @ [0x22] @ lit ''}'' @ rest) =
     Some (Inr (JObject [(lit ''msg'', JString (lit ''Hello from fetch SSE'')),
                         (lit ''time'', JString ts)], rest))"
proof -
  have s: "parse_chars [] (ts @ 0x22 # 0x7D # rest) = Some (ts, 0x7D # rest)"
    using parse_chars_plain [OF assms, of "[]" "0x7D # rest"] by simp
  show ?thesis
    by (simp add: lit_def skip_ws_def is_json_ws_def s)
qed

lemma parse_stringify_payload:
  "parse_value (Suc (Suc (Suc (Suc k)))) (JSON_stringify (payload_object now) @ rest) =
     Some (Inr (payload_object now, rest))"
  unfolding stringify_payload
  unfolding payload_object_def append_assoc
  by (rule parse_payload_rest [OF toISOString_plain])

lemma JSON_parse_payload:
  "JSON_parse (JSON_stringify (payload_object now)) = Some (Inr (payload_object now))"
proof -
  let ?text = "JSON_stringify (payload_object now)"
  have "Suc (Suc (Suc 0)) \<le> 2 * length ?text" by (simp add: stringify_payload lit_def)
  then obtain k where k: "Suc (2 * length ?text) = Suc (Suc (Suc (Suc k)))"
    by (auto simp: le_iff_add)
  have "parse_value (Suc (2 * length ?text)) (?text @ []) = Some (Inr (payload_object now, []))"
    unfolding k by (rule parse_stringify_payload)
  then show ?thesis
    by (simp add: JSON_parse_def skip_ws_def)
qed

text \<open>
  C8. Each request sets up a timer of period 5000 ms; each run of its callback
  writes one emission to the response. At a valid time \<open>now\<close> the emission is
  \<open>data: \<close>, a text without line feed, and two line feeds (the blank line that ends
  an event). The text is JSON for a mapping with the fields \<open>msg\<close> and \<open>time\<close>,
  and \<open>time\<close> has the layout \<open>YYYY-MM-DDTHH:mm:ss.sssZ\<close> of ISO 8601 (with a
  sign and six digits for a year outside 0 to 9999).
\<close>

theorem event_source_emission:
  assumes "valid_date now"
  shows "intervals (getEvents r s) = intervals s @ [(r, 5000)] \<and>
   written (onInterval r now s) = written s @ [(r, emission now)] \<and>
   (\<exists>text. emission now = lit ''data: '' @ text @ [0x0A, 0x0A] \<and> 0x0A \<notin> set text \<and>
      JSON_parse text =
        Some (Inr (JObject [(lit ''msg'', JString (lit ''Hello from fetch SSE'')),
                            (lit ''time'', JString (toISOString now))]))) \<and>
   digits_to_zero (toISOString now) =
     (if 0 \<le> year now \<and> year now \<le> 9999 then lit ''0000-00-00T00:00:00.000Z''
      else if year now < 0 then lit ''-000000-00-00T00:00:00.000Z''
      else lit ''+000000-00-00T00:00:00.000Z'')"
proof -
  let ?text = "JSON_stringify (payload_object now)"
  have "0x0A \<notin> set (toISOString now)"
    using toISOString_plain by (rule no_newline_plain)
  then have n: "0x0A \<notin> set ?text"
    by (simp add: stringify_payload lit_def)
  have p: "JSON_parse ?text =
        Some (Inr (JObject [(lit ''msg'', JString (lit ''Hello from fetch SSE'')),
                            (lit ''time'', JString (toISOString now))]))"
    using JSON_parse_payload [of now] by (simp only: payload_object_def)
  have e: "emission now = lit ''data: '' @ ?text @ [0x0A, 0x0A]"
    by (simp add: emission_def)
  from e n p have "\<exists>text. emission now = lit ''data: '' @ text @ [0x0A, 0x0A] \<and>
      0x0A \<notin> set text \<and>
      JSON_parse text =
        Some (Inr (JObject [(lit ''msg'', JString (lit ''Hello from fetch SSE'')),
                            (lit ''time'', JString (toISOString now))]))"
    by blast
  then show ?thesis
    by (simp add: getEvents_def onInterval_def toISOString_shape)
qed

lemma emission_example:
  "toISOString readme_date = lit ''2025-12-23T15:22:29.986Z'' \<and>
   emission readme_date =
     lit ''data: {'' @ [0x22] @ lit ''msg'' @ [0x22] @ lit '':'' @ [0x22]
       @ lit ''Hello from fetch SSE'' @ [0x22] @ lit '','' @ [0x22] @ lit ''time'' @ [0x22]
       @ lit '':'' @ [0x22] @ lit ''2025-12-23T15:22:29.986Z'' @ [0x22] @ lit ''}''
       @ [0x0A, 0x0A]"
  by code_simp

theorem event_source_emission_witness:
  "valid_date readme_date \<and>
   toISOString readme_date = lit ''2025-12-23T15:22:29.986Z'' \<and>
   digits_to_zero (toISOString readme_date) = lit ''0000-00-00T00:00:00.000Z'' \<and>
   intervals (getEvents 7 sse_init) = [(7, 5000)] \<and>
   written (onInterval 7 readme_date (getEvents 7 sse_init)) = [(7, emission readme_date)] \<and>
   (\<exists>text. emission readme_date = lit ''data: '' @ text @ [0x0A, 0x0A] \<and> 0x0A \<notin> set text \<and>
      JSON_parse text =
        Some (Inr (JObject [(lit ''msg'', JString (lit ''Hello from fetch SSE'')),
                            (lit ''time'', JString (lit ''2025-12-23T15:22:29.986Z''))])))"
proof -
  have v: "valid_date readme_date"
    by (simp add: valid_date_def readme_date_def days_in_month_def)
  have y: "0 \<le> year readme_date \<and> year readme_date \<le> 9999"
    by (simp add: readme_date_def)
  have i: "intervals sse_init = []" "written (getEvents 7 sse_init) = []"
    by (simp_all add: sse_init_def getEvents_def)
  from emission_example have t: "toISOString readme_date = lit ''2025-12-23T15:22:29.986Z''"
    by simp
  from event_source_emission [OF v, of 7 sse_init]
    event_source_emission [OF v, of 7 "getEvents 7 sse_init"] v y i
  show ?thesis by (simp add: t)
qed

lemma intervals_run:
  "intervals (sse_run evs s) = intervals s @ map (\<lambda>r. (r, 5000)) (requests evs)"
proof (induction evs arbitrary: s)
  case Nil
  then show ?case by simp
next
  case (Cons e evs)
  show ?case
    by (cases e) (simp_all add: Cons.IH getEvents_def onInterval_def)
qed

text \<open>
  C9. After any events, the timers are, in order, one of period 5000 ms for each
  request made so far, whether or not its client has gone; and when the timer of
  the \<open>i\<close>-th request fires, its callback writes an emission to the response of
  that request.
\<close>

theorem intervals_never_cleared:
  "intervals (sse_run evs sse_init) = map (\<lambda>r. (r, 5000)) (requests evs) \<and>
   (i < length (requests evs) \<longrightarrow>
      written (sse_step (Tick i now) (sse_run evs sse_init)) =
        written (sse_run evs sse_init) @ [(requests evs ! i, emission now)])"
proof -
  let ?s = "sse_run evs sse_init"
  have m: "intervals ?s = map (\<lambda>r. (r, 5000)) (requests evs)"
    by (simp add: intervals_run sse_init_def)
  then show ?thesis by (simp add: onInterval_def)
qed

theorem intervals_never_cleared_witness:
  "requests [GetEvents 7, ClientGone 7, GetEvents 8, ClientGone 8] = [7, 8] \<and>
   intervals (sse_run [GetEvents 7, ClientGone 7, GetEvents 8, ClientGone 8] sse_init) =
     [(7, 5000), (8, 5000)] \<and>
   written (sse_step (Tick 0 readme_date)
     (sse_run [GetEvents 7, ClientGone 7, GetEvents 8, ClientGone 8] sse_init)) =
     [(7, emission readme_date)]"
proof -
  let ?evs = "[GetEvents 7, ClientGone 7, GetEvents 8, ClientGone 8]"
  have r: "requests ?evs = [7, 8]" by simp
  have w: "written (sse_run ?evs sse_init) = []"
    by (simp add: getEvents_def sse_init_def)
  have l: "0 < length (requests ?evs)" by simp
  from intervals_never_cleared [of ?evs 0 readme_date] l
  have i: "intervals (sse_run ?evs sse_init) = map (\<lambda>r. (r, 5000)) (requests ?evs)"
    and t: "written (sse_step (Tick 0 readme_date) (sse_run ?evs sse_init)) =
      written (sse_run ?evs sse_init) @ [(requests ?evs ! 0, emission readme_date)]"
    by blast+
  from i have i': "intervals (sse_run ?evs sse_init) = [(7, 5000), (8, 5000)]"
    by (simp only: r list.map)
  from t have t': "written (sse_step (Tick 0 readme_date) (sse_run ?evs sse_init)) =
      [(7, emission readme_date)]"
    by (simp only: r w append_Nil nth_Cons_0)
  from r i' t' show ?thesis by (intro conjI)
qed

section \<open>Properties of the streaming client\<close>

lemma trim_inner:
  assumes "\<not> is_white_space a" and "\<not> is_white_space b" and "list_all is_white_space ws"
  shows "trim (a # xs @ b # ws) = a # xs @ [b]"
proof -
  have 1: "dropWhile is_white_space (a # xs @ b # ws) = a # xs @ b # ws"
    using assms(1) by simp
  have 2: "rev (a # xs @ b # ws) = rev ws @ b # rev xs @ [a]" by simp
  have "dropWhile is_white_space (rev ws @ b # rev xs @ [a]) =
      dropWhile is_white_space (b # rev xs @ [a])"
    by (rule dropWhile_append2) (use assms(3) in \<open>simp add: list_all_iff\<close>)
  then have 3: "dropWhile is_white_space (rev ws @ b # rev xs @ [a]) = b # rev xs @ [a]"
    using assms(2) by simp
  show ?thesis
    unfolding trim_def 1 2 3 by simp
qed

lemma onChunk_emission:
  "onChunk hs (emission now) =
     Some (Inr [ReceivedChunk (emission now), ParsedData (payload_object now), AllHeaders hs])"
proof -
  let ?text = "JSON_stringify (payload_object now)"
  let ?mid = "[0x22] @ lit ''msg'' @ [0x22] @ lit '':'' @ [0x22] @ lit ''Hello from fetch SSE''
       @ [0x22] @ lit '','' @ [0x22] @ lit ''time'' @ [0x22] @ lit '':'' @ [0x22]
       @ toISOString now @ [0x22]"
  have t: "?text = 0x7B # ?mid @ 0x7D # []"
    by (simp add: stringify_payload lit_def)
  have i: "js_includes (emission now) (lit ''data:'')"
    by (simp add: emission_def lit_def)
  have r: "replace (emission now) (lit ''data: '') [] = ?text @ [0x0A, 0x0A]"
    by (simp add: emission_def lit_def)
  have "trim (0x7B # ?mid @ 0x7D # [0x0A, 0x0A]) = 0x7B # ?mid @ [0x7D]"
    by (rule trim_inner) (simp_all add: is_white_space_def)
  then have tr: "trim (?text @ [0x0A, 0x0A]) = ?text"
    unfolding t by simp
  show ?thesis
    by (simp add: onChunk_def i r tr JSON_parse_payload Let_def)
qed

lemma onChunk_coalesced:
  "onChunk hs (emission a @ emission b) =
     Some (Inl (SyntaxError, [ReceivedChunk (emission a @ emission b)]))"
proof -
  let ?ta = "JSON_stringify (payload_object a)"
  let ?tb = "JSON_stringify (payload_object b)"
  let ?mid = "\<lambda>d. [0x22] @ lit ''msg'' @ [0x22] @ lit '':'' @ [0x22] @ lit ''Hello from fetch SSE''
       @ [0x22] @ lit '','' @ [0x22] @ lit ''time'' @ [0x22] @ lit '':'' @ [0x22]
       @ toISOString d @ [0x22]"
  let ?rest = "[0x0A, 0x0A] @ lit ''data: '' @ ?tb"
  have t: "JSON_stringify (payload_object d) = 0x7B # ?mid d @ 0x7D # []" for d
    by (simp add: stringify_payload lit_def)
  have i: "js_includes (emission a @ emission b) (lit ''data:'')"
    by (simp add: emission_def lit_def)
  have r: "replace (emission a @ emission b) (lit ''data: '') [] =
      ?ta @ ?rest @ [0x0A, 0x0A]"
    by (simp add: emission_def lit_def)
  have "trim (0x7B # (?mid a @ 0x7D # [0x0A, 0x0A] @ lit ''data: '' @ 0x7B # ?mid b)
              @ 0x7D # [0x0A, 0x0A]) =
        0x7B # (?mid a @ 0x7D # [0x0A, 0x0A] @ lit ''data: '' @ 0x7B # ?mid b) @ [0x7D]"
    by (rule trim_inner) (simp_all add: is_white_space_def)
  then have tr: "trim (?ta @ ?rest @ [0x0A, 0x0A]) = ?ta @ ?rest"
    unfolding t by simp
  have "Suc (Suc (Suc 0)) \<le> 2 * length (?ta @ ?rest)" by simp
  then obtain k where k: "Suc (2 * length (?ta @ ?rest)) = Suc (Suc (Suc (Suc k)))"
    by (auto simp: le_iff_add)
  have p: "parse_value (Suc (2 * length (?ta @ ?rest))) (?ta @ ?rest) =
      Some (Inr (payload_object a, ?rest))"
    unfolding k by (rule parse_stringify_payload)
  have "skip_ws ?rest \<noteq> []"
    by (simp add: skip_ws_def is_json_ws_def lit_def)
  with p have "JSON_parse (?ta @ ?rest) = Some (Inl SyntaxError)"
    by (simp add: JSON_parse_def)
  then have "JSON_parse (trim (replace (emission a @ emission b) (lit ''data: '') [])) =
      Some (Inl SyntaxError)"
    by (simp only: r tr)
  with i show ?thesis
    by (simp add: onChunk_def Let_def)
qed

lemma startSSE_emissions:
  "startSSE hs (map emission nows) =
     Some (Inr (concat (map (\<lambda>now. [ReceivedChunk (emission now),
                                      ParsedData (payload_object now), AllHeaders hs]) nows)))"
  by (induction nows) (simp_all add: onChunk_emission)

lemma split_event_throws:
  "startSSE hs [take 30 (emission readme_date), drop 30 (emission readme_date)] =
     Some (Inl (SyntaxError, [ReceivedChunk (take 30 (emission readme_date))]))"
  by code_simp

lemma inner_data_throws:
  "startSSE hs [inner_data_chunk] =
     Some (Inl (SyntaxError, [ReceivedChunk inner_data_chunk]))"
  by code_simp

text \<open>
  After the prefix \<open>data: \<close> a payload that holds \<open>data: \<close> itself is parsed as
  it is: \<open>replace\<close> takes the first occurrence, which is the prefix.
\<close>

lemma inner_data_after_prefix_parsed:
  "startSSE hs [prefixed_inner_data_chunk] =
     Some (Inr [ReceivedChunk prefixed_inner_data_chunk,
                ParsedData (JObject [(lit ''msg'', JString (lit ''data: x''))]),
                AllHeaders hs])"
  by code_simp

text \<open>
  C10. Chunks that each hold one event of the server are parsed, whatever the
  times. \<open>JSON.parse\<close> throws, and ends \<open>startSSE\<close>, on every chunk that holds two
  events of the server, on the first part of an event of the server cut after 30
  characters, and on the event \<open>data:{"msg":"data: x"}\<close>, whose only
  \<open>data: \<close> is inside its payload.
\<close>

theorem chunk_parser_throws:
  "startSSE hs (map emission nows) =
     Some (Inr (concat (map (\<lambda>now. [ReceivedChunk (emission now),
                                      ParsedData (payload_object now), AllHeaders hs]) nows))) \<and>
   startSSE hs ((emission a @ emission b) # chunks) =
     Some (Inl (SyntaxError, [ReceivedChunk (emission a @ emission b)])) \<and>
   startSSE hs [take 30 (emission readme_date), drop 30 (emission readme_date)] =
     Some (Inl (SyntaxError, [ReceivedChunk (take 30 (emission readme_date))])) \<and>
   startSSE hs [inner_data_chunk] =
     Some (Inl (SyntaxError, [ReceivedChunk inner_data_chunk]))"
proof -
  have "startSSE hs ((emission a @ emission b) # chunks) =
      Some (Inl (SyntaxError, [ReceivedChunk (emission a @ emission b)]))"
    by (simp add: onChunk_coalesced)
  then show ?thesis
    by (simp only: startSSE_emissions split_event_throws inner_data_throws simp_thms)
qed

end
